theory Spec2Isabelle
  imports Main "HOL-Library.AList" "HOL-Library.Sublist" "HOL-Library.Multiset"
begin

section \<open>JavaScript values used by the handler\<close>

text \<open>
  Strings are lists of characters. Numbers that the handler uses as counters are
  non-negative integers; they are modelled as \<open>nat\<close>. (A JavaScript number counts exactly
  up to \<open>2^53\<close>, far beyond the number of traces a request can hold in memory, and in
  that range \<open>String\<close> writes the decimal numeral.)
\<close>

subsection \<open>\<open>String(n)\<close> for a non-negative integer\<close>

definition digit_char :: "nat \<Rightarrow> char" where
  "digit_char d = ''0123456789'' ! d"

function js_String :: "nat \<Rightarrow> string" where
  "js_String n = (if n < 10 then [digit_char n] else js_String (n div 10) @ [digit_char (n mod 10)])"
  by pat_completeness auto
termination
  by (relation "measure (\<lambda>n. n)") auto

declare js_String.simps [simp del]

text \<open>Reading a decimal numeral back (used to recognise integer-like property names).\<close>

definition digit_val :: "char \<Rightarrow> nat" where
  "digit_val c = of_char c - 48"

definition parse_nat :: "string \<Rightarrow> nat" where
  "parse_nat s = foldl (\<lambda>a c. 10 * a + digit_val c) 0 s"

subsection \<open>Objects: own properties in insertion order\<close>

text \<open>
  A plain object is the list of its own enumerable properties, in the order in which they
  were created; property names are strings and are pairwise distinct (\<open>wf_obj\<close>). The
  objects that \<open>JSON.parse\<close> returns have the prototype \<open>Object.prototype\<close>; any name
  can be an own property of them, \<open>__proto__\<close> and \<open>hasOwnProperty\<close> included.
\<close>

type_synonym 'v obj = "(string \<times> 'v) list"

definition wf_obj :: "'v obj \<Rightarrow> bool" where
  "wf_obj ob = distinct (map fst ob)"

text \<open>
  An array index is a property name that is the canonical decimal numeral of an integer
  between \<open>0\<close> and \<open>2^32 - 2\<close>.
\<close>

definition array_index :: "string \<Rightarrow> nat option" where
  "array_index s =
     (let n = parse_nat s in if n < 2 ^ 32 - 1 \<and> js_String n = s then Some n else None)"

text \<open>
  \<open>for (const k in ob)\<close> (and \<open>JSON.stringify\<close>) visit the own properties of a plain
  object with the array indices first, in ascending numeric order, and then the other
  names in insertion order.
\<close>

definition own_enum :: "'v obj \<Rightarrow> 'v obj" where
  "own_enum ob =
     sort_key (\<lambda>p. the (array_index (fst p))) (filter (\<lambda>p. array_index (fst p) \<noteq> None) ob)
     @ filter (\<lambda>p. array_index (fst p) = None) ob"

text \<open>
  The properties that every object inherits from \<open>Object.prototype\<close>. None of them is
  enumerable. \<open>__proto__\<close> is an accessor: reading it gives the prototype, assigning an
  object to it replaces the prototype, assigning a primitive value does nothing; in
  neither case does the assignment create an own property. The others are methods.
\<close>

definition object_prototype_names :: "string list" where
  "object_prototype_names =
     [''constructor'', ''__defineGetter__'', ''__defineSetter__'', ''hasOwnProperty'',
      ''__lookupGetter__'', ''__lookupSetter__'', ''isPrototypeOf'', ''propertyIsEnumerable'',
      ''toString'', ''valueOf'', ''__proto__'', ''toLocaleString'']"

text \<open>
  \<open>ob.hasOwnProperty(k)\<close> on an object made of data: when \<open>hasOwnProperty\<close> is an own
  property of \<open>ob\<close> it hides the method, its value is not a function, and the call
  raises a \<open>TypeError\<close>.
\<close>

definition ownsHasOwnProperty :: "'v obj \<Rightarrow> bool" where
  "ownsHasOwnProperty ob = (''hasOwnProperty'' \<in> fst ` set ob)"

text \<open>
  \<open>ob[k] = v\<close> for a string \<open>v\<close> on an object created as \<open>{}\<close>: the property is
  overwritten in place or created at the end, except that an assignment to \<open>__proto__\<close>
  is ignored.
\<close>

definition obj_set :: "string obj \<Rightarrow> string \<Rightarrow> string \<Rightarrow> string obj" where
  "obj_set ob k v = (if k = ''__proto__'' then ob else AList.update k v ob)"

text \<open>
  \<open>ob[k]\<close> on such an object: the own property, else the member of \<open>Object.prototype\<close>
  of that name, else \<open>undefined\<close>. Reading a missing property is not an error.
\<close>

datatype jsref = Undefined | Str string | Inherited string

definition obj_get :: "string obj \<Rightarrow> string \<Rightarrow> jsref" where
  "obj_get ob k =
     (case map_of ob k of
        Some v \<Rightarrow> Str v
      | None \<Rightarrow> if k \<in> set object_prototype_names then Inherited k else Undefined)"

text \<open>
  An object created as \<open>{}\<close> to which objects are assigned: its own properties, and the
  names of the enumerable properties of its prototype when an assignment to \<open>__proto__\<close>
  has replaced the prototype (\<open>None\<close>: the prototype is still \<open>Object.prototype\<close>).
\<close>

record 'v jsobject =
  ownProps :: "'v obj"
  protoNames :: "string list option"

definition obj_set_object :: "('v \<Rightarrow> string list) \<Rightarrow> 'v jsobject \<Rightarrow> string \<Rightarrow> 'v \<Rightarrow> 'v jsobject" where
  "obj_set_object names ob k v =
     (if k = ''__proto__'' then ob\<lparr>protoNames := Some (names v)\<rparr>
      else ob\<lparr>ownProps := AList.update k v (ownProps ob)\<rparr>)"

text \<open>
  \<open>for (const k in ob)\<close> on such an object: the own names in enumeration order, then the
  names inherited from a replaced prototype that no own property hides.
\<close>

definition forInKeys :: "'v jsobject \<Rightarrow> string list" where
  "forInKeys ob =
     map fst (own_enum (ownProps ob))
     @ (case protoNames ob of
          None \<Rightarrow> []
        | Some names \<Rightarrow> filter (\<lambda>k. k \<notin> fst ` set (ownProps ob)) names)"

text \<open>
  \<open>ob.hasOwnProperty\<close> is the method of \<open>Object.prototype\<close> unless an own property or a
  property of the replaced prototype hides it; what hides it is data, not a function.
\<close>

definition hasOwnPropertyCallable :: "'v jsobject \<Rightarrow> bool" where
  "hasOwnPropertyCallable ob =
     (\<not> ownsHasOwnProperty (ownProps ob)
      \<and> (case protoNames ob of None \<Rightarrow> True | Some names \<Rightarrow> ''hasOwnProperty'' \<notin> set names))"

section \<open>The ink documents\<close>

text \<open>
  A trace has an \<open>id\<close> and a payload the handler never inspects (the extension part of the
  record). A trace group is an object with the property \<open>traceDataRefs\<close> and other
  properties; the handler never inspects their values. A document (\<open>inkmlData\<close>) has the
  array \<open>traces\<close>, the object \<open>traceGroups\<close> and further opaque fields.
\<close>

record trace =
  id_trace :: string

record ('r, 'p) traceGroup =
  traceDataRefs :: "'r list"
  otherProps :: "'p obj"

definition groupPropertyNames :: "('r, 'p) traceGroup \<Rightarrow> string list" where
  "groupPropertyNames g = ''traceDataRefs'' # map fst (otherProps g)"

record ('t, 'g) inkml =
  traces :: "'t list"
  traceGroups :: "'g obj"

datatype js_error = Error string | TypeError | ExecError

section \<open>The Trace ID Unifier\<close>

text \<open>
  \<open>assignUniqueTraceIDs\<close>: \<open>traces.map\<close> with a callback that reads and increments the
  captured counter; the final counter is returned with the new array.
\<close>

fun assignUniqueTraceIDs :: "'a trace_scheme list \<Rightarrow> nat \<Rightarrow> 'a trace_scheme list \<times> nat" where
  "assignUniqueTraceIDs [] traceIdCounter = ([], traceIdCounter)"
| "assignUniqueTraceIDs (trace # rest) traceIdCounter =
     (let newTrace = trace\<lparr>id_trace := js_String traceIdCounter\<rparr>;
          (updatedTraces, counter') = assignUniqueTraceIDs rest (traceIdCounter + 1)
      in (newTrace # updatedTraces, counter'))"

text \<open>
  \<open>updateTraceDataRefs\<close>: the loop visits the own properties of \<open>traceGroups\<close> (an object
  from the JSON copy inherits no enumerable property). Every round calls
  \<open>traceGroups.hasOwnProperty\<close>, which raises a \<open>TypeError\<close> when a group is named
  \<open>hasOwnProperty\<close>, and otherwise answers true. The group is copied, its references are
  replaced by what the change table holds for them, and the copy is assigned to
  \<open>updatedTraceGroups[group]\<close>.
\<close>

fun updateRefsLoop ::
  "(string, 'p) traceGroup obj \<Rightarrow> string obj \<Rightarrow> (string, 'p) traceGroup obj \<Rightarrow>
   (jsref, 'p) traceGroup jsobject \<Rightarrow> js_error + (jsref, 'p) traceGroup jsobject" where
  "updateRefsLoop traceGroups' traceIdChanges [] updatedTraceGroups = Inr updatedTraceGroups"
| "updateRefsLoop traceGroups' traceIdChanges ((groupKey, groupValue) # rest) updatedTraceGroups =
     (if ownsHasOwnProperty traceGroups' then Inl TypeError
      else
        (let groupData =
               \<lparr>traceDataRefs = map (\<lambda>ref. obj_get traceIdChanges ref) (traceDataRefs groupValue),
                otherProps = otherProps groupValue\<rparr>
         in updateRefsLoop traceGroups' traceIdChanges rest
              (obj_set_object groupPropertyNames updatedTraceGroups groupKey groupData)))"

definition updateTraceDataRefs ::
  "(string, 'p) traceGroup obj \<Rightarrow> string obj \<Rightarrow> js_error + (jsref, 'p) traceGroup jsobject" where
  "updateTraceDataRefs traceGroups' traceIdChanges =
     updateRefsLoop traceGroups' traceIdChanges (own_enum traceGroups')
       \<lparr>ownProps = [], protoNames = None\<rparr>"

text \<open>
  \<open>assignUniqueTraceGroupIDs\<close>: the loop visits the own and the inherited names of
  \<open>traceGroups\<close>. Every round calls \<open>traceGroups.hasOwnProperty\<close>; an inherited name is
  skipped, an own property is stored under the next counter value. (The new name is a
  numeral, so the assignment creates an own property.)
\<close>

fun assignGroupLoop ::
  "'g jsobject \<Rightarrow> string list \<Rightarrow> 'g obj \<Rightarrow> nat \<Rightarrow> js_error + ('g obj \<times> nat)" where
  "assignGroupLoop traceGroups' [] updatedTraceGroups groupIdCounter =
     Inr (updatedTraceGroups, groupIdCounter)"
| "assignGroupLoop traceGroups' (groupKey # rest) updatedTraceGroups groupIdCounter =
     (if \<not> hasOwnPropertyCallable traceGroups' then Inl TypeError
      else
        (case map_of (ownProps traceGroups') groupKey of
           None \<Rightarrow> assignGroupLoop traceGroups' rest updatedTraceGroups groupIdCounter
         | Some groupValue \<Rightarrow>
             assignGroupLoop traceGroups' rest
               (AList.update (js_String groupIdCounter) groupValue updatedTraceGroups)
               (groupIdCounter + 1)))"

definition assignUniqueTraceGroupIDs :: "'g jsobject \<Rightarrow> nat \<Rightarrow> js_error + ('g obj \<times> nat)" where
  "assignUniqueTraceGroupIDs traceGroups' groupIdCounter =
     assignGroupLoop traceGroups' (forInKeys traceGroups') [] groupIdCounter"

text \<open>
  The change table of one document: \<open>updatedTraces.reduce\<close> stores, for every position
  \<open>i\<close>, the new id under the old id of \<open>traces[i]\<close>.
\<close>

definition traceIdChangesOf :: "'a trace_scheme list \<Rightarrow> 'a trace_scheme list \<Rightarrow> string obj" where
  "traceIdChangesOf oldTraces updatedTraces =
     foldl (\<lambda>acc (old, new). obj_set acc (id_trace old) (id_trace new)) []
       (zip oldTraces updatedTraces)"

text \<open>
  The loop of \<open>modifyIDsToUnique\<close> over the own properties of \<open>modifiedInfo\<close>, with the
  two counters as loop state. Every round calls \<open>modifiedInfo.hasOwnProperty\<close>, which
  raises a \<open>TypeError\<close> when a document is named \<open>hasOwnProperty\<close>. The list returned
  is the documents in the order the loop visits them.
\<close>

fun unifyLoop ::
  "('a trace_scheme, (string, 'p) traceGroup, 'z) inkml_scheme obj \<Rightarrow>
   ('a trace_scheme, (string, 'p) traceGroup, 'z) inkml_scheme obj \<Rightarrow> nat \<Rightarrow> nat \<Rightarrow>
   js_error + ('a trace_scheme, (jsref, 'p) traceGroup, 'z) inkml_scheme obj" where
  "unifyLoop modifiedInfo [] traceIdCounter groupIdCounter = Inr []"
| "unifyLoop modifiedInfo ((outFile, inkmlData) # rest) traceIdCounter groupIdCounter =
     (if ownsHasOwnProperty modifiedInfo then Inl TypeError
      else
        (let (updatedTraces, newTraceIdCounter) =
               assignUniqueTraceIDs (traces inkmlData) traceIdCounter;
             traceIdChanges = traceIdChangesOf (traces inkmlData) updatedTraces
         in case updateTraceDataRefs (traceGroups inkmlData) traceIdChanges of
              Inl e \<Rightarrow> Inl e
            | Inr updatedTraceGroups \<Rightarrow>
                (case assignUniqueTraceGroupIDs updatedTraceGroups groupIdCounter of
                   Inl e \<Rightarrow> Inl e
                 | Inr (finalTraceGroups, newGroupIdCounter) \<Rightarrow>
                     (case unifyLoop modifiedInfo rest newTraceIdCounter newGroupIdCounter of
                        Inl e \<Rightarrow> Inl e
                      | Inr done \<Rightarrow>
                          Inr ((outFile, \<lparr>traces = updatedTraces, traceGroups = finalTraceGroups,
                                          \<dots> = inkml.more inkmlData\<rparr>) # done)))))"

text \<open>
  \<open>modifyIDsToUnique\<close>: the input is copied through JSON, which keeps the own properties
  and lists them in enumeration order; the loop then visits the documents in that order,
  with both counters starting at 1.
\<close>

definition modifyIDsToUnique ::
  "('a trace_scheme, (string, 'p) traceGroup, 'z) inkml_scheme obj \<Rightarrow>
   js_error + ('a trace_scheme, (jsref, 'p) traceGroup, 'z) inkml_scheme obj" where
  "modifyIDsToUnique outFileAllInfo =
     unifyLoop (own_enum outFileAllInfo) (own_enum outFileAllInfo) 1 1"

section \<open>Strings and regular expressions\<close>

text \<open>
  The characters of a string are its code units; the recognizer writes ASCII, and the
  model covers the code units below 256. In that range the white space of \<open>\s\<close> and of
  \<open>trim\<close> is tab, line feed, vertical tab, form feed, carriage return, space and the
  no-break space; the line terminators, which \<open>.\<close> does not match, are line feed and
  carriage return.
\<close>

abbreviation bsl :: char where
  "bsl \<equiv> CHR 0x5C"

definition is_space :: "char \<Rightarrow> bool" where
  "is_space c = (c \<in> set [CHR 0x09, CHR 0x0A, CHR 0x0B, CHR 0x0C, CHR 0x0D, CHR '' '', CHR 0xA0])"

definition is_line_terminator :: "char \<Rightarrow> bool" where
  "is_line_terminator c = (c \<in> set [CHR 0x0A, CHR 0x0D])"

definition trim :: "string \<Rightarrow> string" where
  "trim s = rev (dropWhile is_space (rev (dropWhile is_space s)))"

subsection \<open>A backtracking matcher\<close>

text \<open>
  The regular expressions of the handler use literal characters, \<open>.\<close>, \<open>\s\<close>, \<open>$\<close>,
  concatenation, alternation, the greedy \<open>*\<close>, the lazy \<open>*?\<close> and capturing groups;
  \<open>r?\<close> is \<open>r|\<close>(empty), \<open>r+?\<close> is \<open>r\<close> followed by \<open>r*?\<close>.
\<close>

datatype regex =
    Chr char
  | Dot
  | Spc
  | Eps
  | Eos
  | Cat regex regex
  | Alt regex regex
  | Star regex
  | LazyStar regex
  | Grp nat regex

fun lit :: "string \<Rightarrow> regex" where
  "lit [] = Eps"
| "lit (c # cs) = Cat (Chr c) (lit cs)"

definition Opt :: "regex \<Rightarrow> regex" where
  "Opt r = Alt r Eps"

definition LazyPlus :: "regex \<Rightarrow> regex" where
  "LazyPlus r = Cat r (LazyStar r)"

text \<open>
  A state of the matcher is the input still to be read and the groups captured so far
  (the latest first). \<open>matches r st\<close> lists the states in which a match of \<open>r\<close>
  started in \<open>st\<close> can end, in the order in which a backtracking matcher tries them: the
  head of the list is the match it returns. A repetition never takes an iteration that
  reads nothing; the bound on the number of iterations is the length of the input.
\<close>

type_synonym mstate = "string \<times> (nat \<times> string) list"

fun star_greedy :: "(mstate \<Rightarrow> mstate list) \<Rightarrow> nat \<Rightarrow> mstate \<Rightarrow> mstate list" where
  "star_greedy f 0 st = [st]"
| "star_greedy f (Suc n) st =
     concat (map (star_greedy f n) (filter (\<lambda>st'. length (fst st') < length (fst st)) (f st)))
     @ [st]"

fun star_lazy :: "(mstate \<Rightarrow> mstate list) \<Rightarrow> nat \<Rightarrow> mstate \<Rightarrow> mstate list" where
  "star_lazy f 0 st = [st]"
| "star_lazy f (Suc n) st =
     st # concat (map (star_lazy f n) (filter (\<lambda>st'. length (fst st') < length (fst st)) (f st)))"

primrec matches :: "regex \<Rightarrow> mstate \<Rightarrow> mstate list" where
  "matches (Chr c) = (\<lambda>(s, caps).
     case s of [] \<Rightarrow> [] | x # xs \<Rightarrow> if x = c then [(xs, caps)] else [])"
| "matches Dot = (\<lambda>(s, caps).
     case s of [] \<Rightarrow> [] | x # xs \<Rightarrow> if is_line_terminator x then [] else [(xs, caps)])"
| "matches Spc = (\<lambda>(s, caps).
     case s of [] \<Rightarrow> [] | x # xs \<Rightarrow> if is_space x then [(xs, caps)] else [])"
| "matches Eps = (\<lambda>st. [st])"
| "matches Eos = (\<lambda>(s, caps). if s = [] then [(s, caps)] else [])"
| "matches (Cat a b) = (\<lambda>st. concat (map (matches b) (matches a st)))"
| "matches (Alt a b) = (\<lambda>st. matches a st @ matches b st)"
| "matches (Star a) = (\<lambda>st. star_greedy (matches a) (length (fst st)) st)"
| "matches (LazyStar a) = (\<lambda>st. star_lazy (matches a) (length (fst st)) st)"
| "matches (Grp i a) = (\<lambda>(s, caps).
     map (\<lambda>(rest, caps'). (rest, (i, take (length s - length rest) s) # caps'))
       (matches a (s, caps)))"

text \<open>
  \<open>regex.exec(s)\<close> and \<open>s.match(regex)\<close> for a regular expression without the \<open>g\<close>
  flag: the first position from the left at which the expression matches, with the text
  before the match, the matched text, the text after it and the groups; \<open>None\<close> is
  \<open>null\<close>.
\<close>

record jsmatch =
  m_before :: string
  m_text :: string
  m_after :: string
  m_groups :: "(nat \<times> string) list"

definition match_at :: "regex \<Rightarrow> string \<Rightarrow> string \<Rightarrow> jsmatch option" where
  "match_at r pre s =
     (case matches r (s, []) of
        [] \<Rightarrow> None
      | (rest, caps) # _ \<Rightarrow>
          Some \<lparr>m_before = pre, m_text = take (length s - length rest) s, m_after = rest,
                m_groups = caps\<rparr>)"

fun rx_search :: "regex \<Rightarrow> string \<Rightarrow> string \<Rightarrow> jsmatch option" where
  "rx_search r pre [] = match_at r pre []"
| "rx_search r pre (c # cs) =
     (case match_at r pre (c # cs) of
        Some m \<Rightarrow> Some m
      | None \<Rightarrow> rx_search r (pre @ [c]) cs)"

definition rx_exec :: "regex \<Rightarrow> string \<Rightarrow> jsmatch option" where
  "rx_exec r s = rx_search r [] s"

text \<open>\<open>match[i]\<close>: the text of group \<open>i\<close>, \<open>None\<close> when the group took no part.\<close>

definition grp :: "jsmatch \<Rightarrow> nat \<Rightarrow> string option" where
  "grp m i = map_of (m_groups m) i"

text \<open>\<open>$i\<close> in a replacement string: the text of the group, empty when it took no part.\<close>

definition dollar :: "jsmatch \<Rightarrow> nat \<Rightarrow> string" where
  "dollar m i = (case grp m i of None \<Rightarrow> [] | Some t \<Rightarrow> t)"

text \<open>
  \<open>s.replace(regex, f)\<close> without the \<open>g\<close> flag replaces the first match; with the
  \<open>g\<close> flag it replaces every match, scanning from the left and resuming after each
  match (one character further on after an empty match).
\<close>

definition js_replace :: "regex \<Rightarrow> (jsmatch \<Rightarrow> string) \<Rightarrow> string \<Rightarrow> string" where
  "js_replace r f s =
     (case rx_exec r s of None \<Rightarrow> s | Some m \<Rightarrow> m_before m @ f m @ m_after m)"

function js_replace_all :: "regex \<Rightarrow> (jsmatch \<Rightarrow> string) \<Rightarrow> string \<Rightarrow> string" where
  "js_replace_all r f [] = (case match_at r [] [] of None \<Rightarrow> [] | Some m \<Rightarrow> f m)"
| "js_replace_all r f (c # cs) =
     (case match_at r [] (c # cs) of
        None \<Rightarrow> c # js_replace_all r f cs
      | Some m \<Rightarrow>
          if length (m_after m) < length (c # cs) then f m @ js_replace_all r f (m_after m)
          else f m @ c # js_replace_all r f cs)"
  by pat_completeness auto
termination
  by (relation "measure (\<lambda>(r, f, s). length s)") auto

section \<open>The request handler\<close>

text \<open>\<open>buildSeshatCommands\<close>; the constant \<open>PATH\<close> of the configuration is a parameter.\<close>

definition buildSeshatCommands :: "string \<Rightarrow> nat list \<Rightarrow> string list" where
  "buildSeshatCommands PATH lastWrittenNumbers =
     map (\<lambda>number.
            ''cd '' @ PATH @ '' && ./seshat -c Config/CONFIG -i temp/temp'' @ js_String number
            @ ''.inkml -o out/out'' @ js_String number @ ''.inkml -r render.pgm -d out.dot'')
       lastWrittenNumbers"

text \<open>
  \<open>extractLatexExpression\<close>, with the regular expression \<open>/LaTeX:\s*(.*)/\<close>. Indexing
  the \<open>null\<close> that \<open>match\<close> returns when nothing matches raises a \<open>TypeError\<close>.
\<close>

definition latex_regex :: regex where
  "latex_regex = Cat (lit ''LaTeX:'') (Cat (Star Spc) (Grp 1 (Star Dot)))"

definition extractLatexExpression :: "string \<Rightarrow> js_error + string" where
  "extractLatexExpression input =
     (case rx_exec latex_regex input of
        None \<Rightarrow> Inl TypeError
      | Some matches' \<Rightarrow>
          (case grp matches' 1 of None \<Rightarrow> Inl TypeError | Some t \<Rightarrow> Inr (trim t)))"

text \<open>
  One recognizer invocation: the promise of \<open>exec\<close> is rejected, or resolved with the two
  output channels; text on the error channel makes the callback throw.
\<close>

datatype exec_result = ExecRejected | ExecResolved string string

definition recognise :: "exec_result \<Rightarrow> js_error + string" where
  "recognise res =
     (case res of
        ExecRejected \<Rightarrow> Inl ExecError
      | ExecResolved stdout stderr \<Rightarrow>
          if stderr \<noteq> [] then Inl (Error ''Internal Server Error'')
          else (case extractLatexExpression stdout of
                  Inl e \<Rightarrow> Inl e
                | Inr latexExpression \<Rightarrow>
                    Inr (js_replace_all (lit '' COMMA '') (\<lambda>m. '', '') latexExpression)))"

text \<open>
  \<open>Promise.all\<close>: the results in the order of the promises, or a rejection when one of
  them is rejected (the handler does not look at which).
\<close>

fun promise_all :: "(js_error + 'a) list \<Rightarrow> js_error + 'a list" where
  "promise_all [] = Inr []"
| "promise_all (Inl e # ps) = Inl e"
| "promise_all (Inr x # ps) = (case promise_all ps of Inl e \<Rightarrow> Inl e | Inr xs \<Rightarrow> Inr (x # xs))"

text \<open>
  The pattern of a hint:
  \<open>/(=|\\lt|\\gt|\\leq|\\geq)_{((\\sum\s*(.*?))|(\\{(.+?)\\})3?)}/\<close>.
  The braces that do not belong to a quantifier are literal characters.
\<close>

definition operator_regex :: regex where
  "operator_regex =
     Alt (lit ''='') (Alt (lit (bsl # ''lt'')) (Alt (lit (bsl # ''gt''))
       (Alt (lit (bsl # ''leq'')) (lit (bsl # ''geq'')))))"

definition sum_form_regex :: regex where
  "sum_form_regex = Grp 3 (Cat (lit (bsl # ''sum'')) (Cat (Star Spc) (Grp 4 (LazyStar Dot))))"

definition set_form_regex :: regex where
  "set_form_regex =
     Cat (Grp 5 (Cat (lit (bsl # ''{'')) (Cat (Grp 6 (LazyPlus Dot)) (lit (bsl # ''}'')))))
         (Opt (Chr (CHR ''3'')))"

definition hint_regex :: regex where
  "hint_regex =
     Cat (Grp 1 operator_regex)
    (Cat (lit ''_{'')
    (Cat (Grp 2 (Alt sum_form_regex set_form_regex))
         (Chr (CHR ''}''))))"

text \<open>
  The body of the loop over the results for one hint: no match leaves the hint as it is;
  otherwise the hint becomes the operator followed by the payload in escaped braces.
  (\<open>match[4].replace\<close> would raise a \<open>TypeError\<close> if group 4 had taken no part.)
\<close>

definition correctHint :: "string \<Rightarrow> js_error + string" where
  "correctHint result =
     (case rx_exec hint_regex result of
        None \<Rightarrow> Inr result
      | Some match \<Rightarrow>
          (let operator = (case grp match 1 of None \<Rightarrow> ''undefined'' | Some t \<Rightarrow> t);
               fromSum =
                 (case grp match 4 of
                    None \<Rightarrow> Inl TypeError
                  | Some t \<Rightarrow> Inr (trim (js_replace (Cat (Chr (CHR ''3'')) Eos) (\<lambda>m. []) t)));
               hint =
                 (case grp match 6 of
                    None \<Rightarrow> fromSum
                  | Some t \<Rightarrow> if t = [] then fromSum else Inr (trim t))
           in case hint of
                Inl e \<Rightarrow> Inl e
              | Inr hint' \<Rightarrow> Inr (operator @ [bsl, CHR ''{''] @ hint' @ [bsl, CHR ''}''])))"

text \<open>The loop over \<open>results.entries()\<close>: only the results at odd positions are hints.\<close>

fun correctHints :: "nat \<Rightarrow> string list \<Rightarrow> js_error + string list" where
  "correctHints index [] = Inr []"
| "correctHints index (result # rest) =
     (case (if index mod 2 = 0 then Inr result else correctHint result) of
        Inl e \<Rightarrow> Inl e
      | Inr result' \<Rightarrow>
          (case correctHints (index + 1) rest of
             Inl e \<Rightarrow> Inl e
           | Inr rest' \<Rightarrow> Inr (result' # rest')))"

text \<open>
  The final pass over every result:
  \<open>.replace(/=_/g, "=")\<close>, \<open>.replace(/=\{\\{(.+?)\\}\}/g, "={$1}")\<close> and
  \<open>.replace(/(_=|_\\lt|_\\gt|_\\leq|_\\geq)/g, (m) => m.slice(1))\<close>.
\<close>

definition underscore_after_eq_regex :: regex where
  "underscore_after_eq_regex = lit ''=_''"

definition double_brace_regex :: regex where
  "double_brace_regex =
     Cat (lit (''={'' @ bsl # ''{'')) (Cat (Grp 1 (LazyPlus Dot)) (lit (bsl # ''}}'')))"

definition underscore_before_op_regex :: regex where
  "underscore_before_op_regex =
     Grp 1 (Alt (lit ''_='') (Alt (lit (CHR ''_'' # bsl # ''lt'')) (Alt (lit (CHR ''_'' # bsl # ''gt''))
       (Alt (lit (CHR ''_'' # bsl # ''leq'')) (lit (CHR ''_'' # bsl # ''geq''))))))"

definition cleanup :: "string \<Rightarrow> string" where
  "cleanup result =
     js_replace_all underscore_before_op_regex (\<lambda>m. drop 1 (m_text m))
       (js_replace_all double_brace_regex (\<lambda>m. ''={'' @ dollar m 1 @ ''}'')
          (js_replace_all underscore_after_eq_regex (\<lambda>m. ''='') result))"

text \<open>The two passes of the normalizer over the list of results.\<close>

definition normalizeResults :: "string list \<Rightarrow> js_error + string list" where
  "normalizeResults results =
     (case correctHints 0 results of
        Inl e \<Rightarrow> Inl e
      | Inr results' \<Rightarrow> Inr (map cleanup results'))"

text \<open>
  \<open>assembleSingleInkML\<close>. The two functions of \<open>fileUtils\<close> are parameters:
  \<open>extractAllInformation\<close> yields the batch or fails, \<open>createFileFromInfo\<close> writes what
  it is given or fails. The result is what \<open>createFileFromInfo\<close> made of the merged
  structure; an error of \<open>modifyIDsToUnique\<close> is passed on.
\<close>

definition assembleSingleInkML ::
  "(nat list \<Rightarrow> js_error + ('a trace_scheme, (string, 'p) traceGroup, 'z) inkml_scheme obj) \<Rightarrow>
   (('a trace_scheme, (jsref, 'p) traceGroup, 'z) inkml_scheme obj \<Rightarrow> js_error + 'w) \<Rightarrow>
   nat list \<Rightarrow> js_error + 'w" where
  "assembleSingleInkML extractAllInformation createFileFromInfo lastWrittenNumbers =
     (case extractAllInformation lastWrittenNumbers of
        Inl e \<Rightarrow> Inl e
      | Inr outFilesAllInfo \<Rightarrow>
          (case modifyIDsToUnique outFilesAllInfo of
             Inl e \<Rightarrow> Inl e
           | Inr uniqueIDsInfo \<Rightarrow> createFileFromInfo uniqueIDsInfo))"

text \<open>
  \<open>handleGet\<close>. The query of the request holds the numbers \<open>lastWrittenNumbers\<close>;
  \<open>exec i command\<close> is the outcome of the \<open>i\<close>-th recognizer invocation. Whatever is
  thrown inside \<open>try\<close> ends in the same response.
\<close>

datatype response = Send "string list" | Status500 string

definition handleGet ::
  "(nat \<Rightarrow> string \<Rightarrow> exec_result) \<Rightarrow>
   (nat list \<Rightarrow> js_error + ('a trace_scheme, (string, 'p) traceGroup, 'z) inkml_scheme obj) \<Rightarrow>
   (('a trace_scheme, (jsref, 'p) traceGroup, 'z) inkml_scheme obj \<Rightarrow> js_error + 'w) \<Rightarrow>
   string \<Rightarrow> nat list \<Rightarrow> response" where
  "handleGet exec extractAllInformation createFileFromInfo PATH lastWrittenNumbers =
     (let seshatCommands = buildSeshatCommands PATH lastWrittenNumbers in
      case promise_all (map (\<lambda>(i, command). recognise (exec i command))
                          (enumerate 0 seshatCommands)) of
        Inl e \<Rightarrow> Status500 ''Internal Server Error''
      | Inr results \<Rightarrow>
          (case normalizeResults results of
             Inl e \<Rightarrow> Status500 ''Internal Server Error''
           | Inr results' \<Rightarrow>
               (case assembleSingleInkML extractAllInformation createFileFromInfo
                       lastWrittenNumbers of
                  Inl e \<Rightarrow> Status500 ''Internal Server Error''
                | Inr written \<Rightarrow> Send results')))"

section \<open>Notions used in the statements and in the proofs\<close>

subsection \<open>Batches and their documents\<close>

text \<open>A batch is well formed when it and the \<open>traceGroups\<close> of its documents are objects.\<close>

definition wf_info :: "('t, 'g, 'z) inkml_scheme obj \<Rightarrow> bool" where
  "wf_info info = (wf_obj info \<and> list_all (\<lambda>(outFile, d). wf_obj (traceGroups d)) info)"

text \<open>All traces, and all groups with their names, of a batch, document after document.\<close>

definition allTraces :: "('t, 'g, 'z) inkml_scheme obj \<Rightarrow> 't list" where
  "allTraces info = concat (map (\<lambda>(outFile, d). traces d) info)"

definition allGroups :: "('t, 'g, 'z) inkml_scheme obj \<Rightarrow> 'g obj" where
  "allGroups info = concat (map (\<lambda>(outFile, d). traceGroups d) info)"

text \<open>
  The names for which the merge of a document raises a \<open>TypeError\<close>: a group named
  \<open>hasOwnProperty\<close>, or a group named \<open>__proto__\<close> that has a property named
  \<open>hasOwnProperty\<close>. A batch raises it for a document of that name as well.
\<close>

definition groups_callable :: "('r, 'p) traceGroup obj \<Rightarrow> bool" where
  "groups_callable tg =
     (\<not> ownsHasOwnProperty tg
      \<and> (case map_of tg ''__proto__'' of
            None \<Rightarrow> True
          | Some g \<Rightarrow> ''hasOwnProperty'' \<notin> set (groupPropertyNames g)))"

definition names_callable ::
  "('t, ('r, 'p) traceGroup, 'z) inkml_scheme obj \<Rightarrow> bool" where
  "names_callable info =
     (\<not> ownsHasOwnProperty info \<and> list_all (\<lambda>(outFile, d). groups_callable (traceGroups d)) info)"

text \<open>
  The groups of a document that become own properties of \<open>updatedTraceGroups\<close>, in the
  order of the loop: all but the one named \<open>__proto__\<close>.
\<close>

definition storedGroups :: "'g obj \<Rightarrow> 'g obj" where
  "storedGroups tg = filter (\<lambda>(gk, gd). gk \<noteq> ''__proto__'') (own_enum tg)"

text \<open>
  The document that one round of the loop leaves behind, written without the loop, for a
  document \<open>d\<close> met when the counters are \<open>t\<close> and \<open>g\<close>. It is used in proofs only;
  \<open>unifyLoop_Cons\<close> below shows that the loop computes it.
\<close>

definition renumberedTraces :: "'a trace_scheme list \<Rightarrow> nat \<Rightarrow> 'a trace_scheme list" where
  "renumberedTraces ts t =
     map (\<lambda>(tr, n). tr\<lparr>id_trace := js_String n\<rparr>) (zip ts [t ..< t + length ts])"

definition rewrittenGroup :: "string obj \<Rightarrow> (string, 'p) traceGroup \<Rightarrow> (jsref, 'p) traceGroup" where
  "rewrittenGroup ch gd =
     \<lparr>traceDataRefs = map (obj_get ch) (traceDataRefs gd), otherProps = otherProps gd\<rparr>"

definition renumbered ::
  "('a trace_scheme, (string, 'p) traceGroup, 'z) inkml_scheme \<Rightarrow> nat \<Rightarrow> nat \<Rightarrow>
   ('a trace_scheme, (jsref, 'p) traceGroup, 'z) inkml_scheme" where
  "renumbered d t g =
     \<lparr>traces = renumberedTraces (traces d) t,
      traceGroups = zip (map js_String [g ..< g + length (storedGroups (traceGroups d))])
        (map (\<lambda>(gk, gd).
                rewrittenGroup (traceIdChangesOf (traces d) (renumberedTraces (traces d) t)) gd)
           (storedGroups (traceGroups d))),
      \<dots> = inkml.more d\<rparr>"

text \<open>
  The documents that the loop leaves behind when no round raises an error, written
  without the helpers, for documents met when the counters are \<open>t\<close> and \<open>g\<close>. It is
  used in proofs only; \<open>unifyLoop_eq\<close> below shows that the loop computes it.
\<close>

fun renumberedDocs ::
  "('a trace_scheme, (string, 'p) traceGroup, 'z) inkml_scheme obj \<Rightarrow> nat \<Rightarrow> nat \<Rightarrow>
   ('a trace_scheme, (jsref, 'p) traceGroup, 'z) inkml_scheme obj" where
  "renumberedDocs [] t g = []"
| "renumberedDocs ((outFile, d) # rest) t g =
     (outFile, renumbered d t g)
     # renumberedDocs rest (t + length (traces d)) (g + length (storedGroups (traceGroups d)))"

subsection \<open>Expressions of the matcher\<close>

text \<open>Expressions without capturing groups.\<close>

fun groupfree :: "regex \<Rightarrow> bool" where
  "groupfree (Grp i r) = False"
| "groupfree (Cat a b) = (groupfree a \<and> groupfree b)"
| "groupfree (Alt a b) = (groupfree a \<and> groupfree b)"
| "groupfree (Star a) = groupfree a"
| "groupfree (LazyStar a) = groupfree a"
| "groupfree r = True"

subsection \<open>Concrete batches\<close>

text \<open>
  Two documents, stored under the sequence numbers 10 and 9 (in this order of creation),
  whose local trace ids and group names collide.
\<close>

definition batch_example :: "(trace, (string, unit) traceGroup) inkml obj" where
  "batch_example =
     [(''10'', \<lparr>traces = [\<lparr>id_trace = ''1''\<rparr>, \<lparr>id_trace = ''2''\<rparr>],
               traceGroups = [(''1'', \<lparr>traceDataRefs = [''1'', ''2''], otherProps = []\<rparr>)]\<rparr>),
      (''9'', \<lparr>traces = [\<lparr>id_trace = ''1''\<rparr>],
              traceGroups = [(''1'', \<lparr>traceDataRefs = [''1''], otherProps = []\<rparr>)]\<rparr>)]"

text \<open>
  A document whose only group refers to its trace \<open>1\<close> and to \<open>9\<close> and
  \<open>constructor\<close>, which name no trace of the document.
\<close>

definition batch_dangling :: "(trace, (string, unit) traceGroup) inkml obj" where
  "batch_dangling =
     [(''1'', \<lparr>traces = [\<lparr>id_trace = ''1''\<rparr>],
              traceGroups =
                [(''1'', \<lparr>traceDataRefs = [''1'', ''9'', ''constructor''], otherProps = []\<rparr>)]\<rparr>)]"



text \<open>
  Two documents stored under the sequence numbers 4294967296 and 4294967295, created in
  this order; neither name is an array index.
\<close>

definition batch_large_numbers :: "(trace, (string, unit) traceGroup) inkml obj" where
  "batch_large_numbers =
     [(''4294967296'', \<lparr>traces = [\<lparr>id_trace = ''1''\<rparr>], traceGroups = []\<rparr>),
      (''4294967295'', \<lparr>traces = [\<lparr>id_trace = ''1''\<rparr>], traceGroups = []\<rparr>)]"


text \<open>
  Three documents stored under the sequence numbers 4294967296, 10 and 9, created in this
  order; the last two names are array indices.
\<close>

definition batch_mixed_numbers :: "(trace, (string, unit) traceGroup) inkml obj" where
  "batch_mixed_numbers =
     [(''4294967296'', \<lparr>traces = [\<lparr>id_trace = ''1''\<rparr>], traceGroups = []\<rparr>),
      (''10'', \<lparr>traces = [\<lparr>id_trace = ''1''\<rparr>], traceGroups = []\<rparr>),
      (''9'', \<lparr>traces = [\<lparr>id_trace = ''1''\<rparr>], traceGroups = []\<rparr>)]"

text \<open>The merged structure of \<open>batch_example\<close>.\<close>

definition merged_example :: "(trace, (jsref, unit) traceGroup) inkml obj" where
  "merged_example =
     [(''9'', \<lparr>traces = [\<lparr>id_trace = ''1''\<rparr>],
              traceGroups = [(''1'', \<lparr>traceDataRefs = [Str ''1''], otherProps = []\<rparr>)]\<rparr>),
      (''10'', \<lparr>traces = [\<lparr>id_trace = ''2''\<rparr>, \<lparr>id_trace = ''3''\<rparr>],
               traceGroups = [(''2'', \<lparr>traceDataRefs = [Str ''2'', Str ''3''], otherProps = []\<rparr>)]\<rparr>)]"

section \<open>Properties of the basic operations\<close>

lemma digit_val_digit_char: "d < 10 \<Longrightarrow> digit_val (digit_char d) = d"
proof -
  assume "d < 10"
  then have "d \<in> {0, 1, 2, 3, 4, 5, 6, 7, 8, 9}" by auto
  then show ?thesis
    by (auto simp: digit_val_def digit_char_def)
qed

lemma parse_nat_snoc: "parse_nat (s @ [c]) = 10 * parse_nat s + digit_val c"
  by (simp add: parse_nat_def)

lemma parse_nat_js_String: "parse_nat (js_String n) = n"
proof (induction n rule: js_String.induct)
  case (1 n)
  show ?case
  proof (cases "n < 10")
    case True
    then show ?thesis
      by (subst js_String.simps) (simp add: parse_nat_def digit_val_digit_char)
  next
    case False
    then have "parse_nat (js_String (n div 10)) = n div 10" using 1 by simp
    with False show ?thesis
      by (subst js_String.simps) (simp add: parse_nat_snoc digit_val_digit_char)
  qed
qed

text \<open>Rules that evaluate the string functions on literals.\<close>

lemmas string_eval = array_index_def parse_nat_def digit_val_def js_String.simps digit_char_def

lemmas unifier_eval = modifyIDsToUnique_def own_enum_def traceIdChangesOf_def
  updateTraceDataRefs_def assignUniqueTraceGroupIDs_def obj_set_def obj_get_def
  obj_set_object_def forInKeys_def hasOwnPropertyCallable_def ownsHasOwnProperty_def
  groupPropertyNames_def object_prototype_names_def

lemma js_String_inj: "js_String m = js_String n \<Longrightarrow> m = n"
  by (metis parse_nat_js_String)

lemma inj_js_String: "inj js_String"
  by (rule injI) (rule js_String_inj)

lemma array_index_js_String: "n < 2 ^ 32 - 1 \<Longrightarrow> array_index (js_String n) = Some n"
  by (simp add: array_index_def parse_nat_js_String)

lemma array_index_SomeD: "array_index s = Some n \<Longrightarrow> s = js_String n \<and> n < 2 ^ 32 - 1"
  by (auto simp: array_index_def Let_def split: if_splits)

lemma assignUniqueTraceIDs_eq:
  "assignUniqueTraceIDs ts c =
     (map (\<lambda>(t, n). t\<lparr>id_trace := js_String n\<rparr>) (zip ts [c ..< c + length ts]), c + length ts)"
proof (induction ts arbitrary: c)
  case Nil
  show ?case by simp
next
  case (Cons t ts)
  have "[c ..< c + length (t # ts)] = c # [Suc c ..< Suc c + length ts]"
    by (simp add: upt_conv_Cons del: upt_Suc)
  then show ?case
    using Cons [of "Suc c"] by (simp del: upt_Suc)
qed

lemma assignUniqueTraceIDs_snd: "snd (assignUniqueTraceIDs ts c) = c + length ts"
  by (simp add: assignUniqueTraceIDs_eq)

lemma assignUniqueTraceIDs_length: "length (fst (assignUniqueTraceIDs ts c)) = length ts"
  by (simp add: assignUniqueTraceIDs_eq)

lemma assignUniqueTraceIDs_ids:
  "map id_trace (fst (assignUniqueTraceIDs ts c)) = map js_String [c ..< c + length ts]"
proof -
  have "map id_trace (map (\<lambda>(t, n). t\<lparr>id_trace := js_String n\<rparr>) (zip ts ns)) = map js_String ns"
    if "length ts = length ns" for ns :: "nat list" and ts :: "'a trace_scheme list"
    using that by (induction ts ns rule: list_induct2) auto
  then show ?thesis by (simp add: assignUniqueTraceIDs_eq)
qed


lemma own_enum_mset: "mset (own_enum ob) = mset ob"
  by (simp add: own_enum_def)

lemma own_enum_set: "set (own_enum ob) = set ob"
  by (metis own_enum_mset set_mset_mset)

lemma own_enum_length: "length (own_enum ob) = length ob"
  by (metis own_enum_mset size_mset)

lemma own_enum_wf: "wf_obj (own_enum ob) = wf_obj ob"
  unfolding wf_obj_def
  by (metis own_enum_mset mset_map mset_eq_imp_distinct_iff)

lemma upt_split: "[a ..< a + (m + n)] = [a ..< a + m] @ [a + m ..< a + m + n]"
  using upt_add_eq_append [of a "a + m" n] by (simp add: add.assoc)

lemma inj_on_js_String: "inj_on js_String A"
  by (rule inj_on_subset [OF inj_js_String]) simp


lemma sum_list_own_enum:
  fixes f :: "string \<times> 'v \<Rightarrow> nat"
  shows "sum_list (map f (own_enum ob)) = sum_list (map f ob)"
proof -
  have "sum_mset (mset (map f (own_enum ob))) = sum_mset (mset (map f ob))"
    by (simp only: mset_map own_enum_mset)
  then show ?thesis
    by (simp only: sum_mset_sum_list)
qed

lemma list_all_own_enum: "list_all P (own_enum ob) = list_all P ob"
  by (simp add: list_all_iff own_enum_set)

lemma wf_info_groups: "wf_info info \<Longrightarrow> list_all (\<lambda>(k, d). wf_obj (traceGroups d)) (own_enum info)"
  by (simp add: wf_info_def list_all_own_enum)


lemma list_all2_in_set2:
  "list_all2 P xs ys \<Longrightarrow> y \<in> set ys \<Longrightarrow> \<exists>x \<in> set xs. P x y"
  by (induction rule: list_all2_induct) auto


lemma own_enum_all_indices:
  assumes "\<forall>k \<in> fst ` set ob. array_index k \<noteq> None"
  shows "own_enum ob = sort_key (\<lambda>p. the (array_index (fst p))) ob"
proof -
  have "filter (\<lambda>p. array_index (fst p) \<noteq> None) ob = ob"
    using assms by (auto simp: filter_id_conv)
  moreover have "filter (\<lambda>p. array_index (fst p) = None) ob = []"
    using assms by (auto simp: filter_empty_conv)
  ultimately show ?thesis by (simp add: own_enum_def)
qed

lemma index_key_inj:
  assumes "wf_obj ob" and "\<forall>k \<in> fst ` set ob. array_index k \<noteq> None"
  shows "inj_on (\<lambda>p. the (array_index (fst p))) (set ob)"
proof (rule inj_onI)
  fix p q
  assume p: "p \<in> set ob" and q: "q \<in> set ob"
    and eq: "the (array_index (fst p)) = the (array_index (fst q))"
  from p q assms(2) obtain m n where "array_index (fst p) = Some m" "array_index (fst q) = Some n"
    by fastforce
  with eq have "fst p = fst q" by (auto dest!: array_index_SomeD)
  with p q assms(1) show "p = q"
    unfolding wf_obj_def by (metis eq_key_imp_eq_value prod.collapse)
qed

section \<open>Properties of the objects and of the helper loops\<close>

lemma digit_char_digit: "d < 10 \<Longrightarrow> digit_char d \<in> set ''0123456789''"
proof -
  assume "d < 10"
  then have "d \<in> {0, 1, 2, 3, 4, 5, 6, 7, 8, 9}" by auto
  then show ?thesis
    by (auto simp: digit_char_def)
qed

lemma js_String_digits: "set (js_String n) \<subseteq> set ''0123456789''"
proof (induction n rule: js_String.induct)
  case (1 n)
  show ?case
  proof (cases "n < 10")
    case True
    then show ?thesis
      using digit_char_digit [of n] by (subst js_String.simps) simp
  next
    case False
    with 1 have "set (js_String (n div 10)) \<subseteq> set ''0123456789''" by simp
    moreover have "digit_char (n mod 10) \<in> set ''0123456789''"
      by (rule digit_char_digit) simp
    ultimately show ?thesis
      using False by (subst js_String.simps) simp
  qed
qed

lemma js_String_not_reserved:
  "js_String n \<noteq> ''__proto__''" "js_String n \<noteq> ''hasOwnProperty''"
  using js_String_digits [of n] by auto

lemma update_fresh: "k \<notin> fst ` set ob \<Longrightarrow> AList.update k v ob = ob @ [(k, v)]"
  by (induction ob) auto

lemma insort_key_map:
  assumes "\<And>x. f (g x) = f' x"
  shows "insort_key f (g x) (map g xs) = map g (insort_key f' x xs)"
  by (induction xs) (simp_all add: assms)

lemma sort_key_map:
  assumes "\<And>x. f (g x) = f' x"
  shows "sort_key f (map g xs) = map g (sort_key f' xs)"
  by (induction xs) (simp_all add: insort_key_map [where f = f and g = g and f' = f', OF assms])

lemma own_enum_map_keys:
  "own_enum (map (\<lambda>(k, v). (k, h k v)) xs) = map (\<lambda>(k, v). (k, h k v)) (own_enum xs)"
proof -
  let ?g = "\<lambda>(k, v). (k, h k v)"
  have fstg: "fst (?g p) = fst p" for p by (cases p) simp
  have "sort_key (\<lambda>p. the (array_index (fst p))) (map ?g ys) =
        map ?g (sort_key (\<lambda>p. the (array_index (fst p))) ys)" for ys
    by (rule sort_key_map) (simp add: fstg)
  then show ?thesis
    by (simp add: own_enum_def filter_map comp_def fstg)
qed

lemma own_enum_filter: "own_enum (filter P xs) = filter P (own_enum xs)"
proof -
  have "filter Q (filter P xs) = filter P (filter Q xs)" for Q :: "string \<times> 'a \<Rightarrow> bool"
    by (simp add: conj_commute)
  then show ?thesis
    by (simp only: own_enum_def filter_append filter_sort)
qed

lemma own_enum_idem: "own_enum (own_enum ob) = own_enum ob"
proof -
  let ?f = "\<lambda>p::string \<times> 'a. the (array_index (fst p))"
  let ?A = "sort_key ?f (filter (\<lambda>p. array_index (fst p) \<noteq> None) ob)"
  let ?B = "filter (\<lambda>p. array_index (fst p) = None) ob"
  have PA: "filter (\<lambda>p. array_index (fst p) \<noteq> None) ?A = ?A"
    by (simp add: filter_sort)
  have PB: "filter (\<lambda>p. array_index (fst p) \<noteq> None) ?B = []"
    by (auto simp: filter_empty_conv)
  have NA: "filter (\<lambda>p. array_index (fst p) = None) ?A = []"
    by (auto simp: filter_empty_conv)
  have NB: "filter (\<lambda>p. array_index (fst p) = None) ?B = ?B"
    by simp
  have "sorted (map ?f ?A)" by (rule sorted_sort_key)
  then have S: "sort_key ?f ?A = ?A" by (rule sort_key_id_if_sorted)
  have "own_enum (?A @ ?B) = ?A @ ?B"
    unfolding own_enum_def
    by (simp only: filter_append PA PB NA NB S append_Nil2 append_Nil)
  then show ?thesis by (simp add: own_enum_def)
qed

lemma storedGroups_enum:
  "own_enum (map (\<lambda>(k, v). (k, h v)) (storedGroups tg)) = map (\<lambda>(k, v). (k, h v)) (storedGroups tg)"
  unfolding storedGroups_def
  by (simp only: own_enum_map_keys [where h = "\<lambda>k v. h v"] own_enum_filter own_enum_idem)

lemma storedGroups_keys: "wf_obj tg \<Longrightarrow> distinct (map fst (storedGroups tg))"
  unfolding storedGroups_def
  using own_enum_wf [of tg] by (simp add: wf_obj_def distinct_map_filter)

lemma map_of_own_enum: "wf_obj ob \<Longrightarrow> map_of (own_enum ob) = map_of ob"
  using own_enum_wf [of ob] own_enum_set [of ob]
  by (simp add: wf_obj_def map_of_inject_set)

lemma groupPropertyNames_rewritten [simp]:
  "groupPropertyNames (rewrittenGroup ch g) = groupPropertyNames g"
  by (simp add: groupPropertyNames_def rewrittenGroup_def)

lemma updateRefsLoop_eq:
  assumes "\<not> ownsHasOwnProperty tg" and "distinct (map fst xs)"
    and "fst ` set xs \<inter> fst ` set (ownProps acc) = {}"
  shows "updateRefsLoop tg ch xs acc =
     Inr \<lparr>ownProps = ownProps acc
              @ map (\<lambda>(k, g). (k, rewrittenGroup ch g)) (filter (\<lambda>(k, g). k \<noteq> ''__proto__'') xs),
          protoNames = (case map_of xs ''__proto__'' of
                          None \<Rightarrow> protoNames acc
                        | Some g \<Rightarrow> Some (groupPropertyNames g))\<rparr>"
  using assms(2,3)
proof (induction xs arbitrary: acc)
  case Nil
  show ?case by simp
next
  case (Cons x xs)
  obtain k g where x: "x = (k, g)" by (cases x)
  from Cons.prems have d: "distinct (map fst xs)" and nk: "k \<notin> fst ` set xs" by (auto simp: x)
  show ?case
  proof (cases "k = ''__proto__''")
    case True
    let ?acc = "acc\<lparr>protoNames := Some (groupPropertyNames g)\<rparr>"
    have "fst ` set xs \<inter> fst ` set (ownProps ?acc) = {}" using Cons.prems by auto
    moreover have "map_of xs ''__proto__'' = None"
      using nk True by (simp add: map_of_eq_None_iff)
    ultimately show ?thesis
      using Cons.IH [OF d, of ?acc] True assms(1)
      by (simp add: x obj_set_object_def flip: rewrittenGroup_def)
  next
    case False
    from Cons.prems have fresh: "k \<notin> fst ` set (ownProps acc)" by (auto simp: x)
    let ?acc = "acc\<lparr>ownProps := ownProps acc @ [(k, rewrittenGroup ch g)]\<rparr>"
    have "fst ` set xs \<inter> fst ` set (ownProps ?acc) = {}" using Cons.prems nk by (auto simp: x)
    from Cons.IH [OF d this] False assms(1)
    show ?thesis
      by (simp add: x obj_set_object_def update_fresh [OF fresh] flip: rewrittenGroup_def
          split: option.splits)
  qed
qed

lemma updateRefsLoop_throws:
  "ownsHasOwnProperty tg \<Longrightarrow> xs \<noteq> [] \<Longrightarrow> updateRefsLoop tg ch xs acc = Inl TypeError"
  by (cases xs) auto

lemma updateTraceDataRefs_eq:
  assumes "wf_obj tg"
  shows "updateTraceDataRefs tg ch =
     (if ownsHasOwnProperty tg then Inl TypeError
      else Inr \<lparr>ownProps = map (\<lambda>(k, g). (k, rewrittenGroup ch g)) (storedGroups tg),
                protoNames = map_option groupPropertyNames (map_of tg ''__proto__'')\<rparr>)"
proof (cases "ownsHasOwnProperty tg")
  case True
  then have "own_enum tg \<noteq> []"
    using own_enum_set [of tg] by (auto simp: ownsHasOwnProperty_def)
  with True show ?thesis
    by (simp add: updateTraceDataRefs_def updateRefsLoop_throws)
next
  case False
  have d: "distinct (map fst (own_enum tg))"
    using assms own_enum_wf [of tg] by (simp add: wf_obj_def)
  from updateRefsLoop_eq [OF False d, of "\<lparr>ownProps = [], protoNames = None\<rparr>" ch] False
  show ?thesis
    by (simp add: updateTraceDataRefs_def storedGroups_def map_of_own_enum [OF assms]
        split: option.splits)
qed

lemma assignGroupLoop_eq:
  assumes "hasOwnPropertyCallable ob"
  shows "fst ` set upd \<inter> js_String ` {c..} = {} \<Longrightarrow>
     assignGroupLoop ob ks upd c =
       Inr (upd @ zip (map js_String [c ..< c + length (List.map_filter (map_of (ownProps ob)) ks)])
                      (List.map_filter (map_of (ownProps ob)) ks),
            c + length (List.map_filter (map_of (ownProps ob)) ks))"
proof (induction ks arbitrary: upd c)
  case Nil
  show ?case by (simp add: map_filter_simps)
next
  case (Cons k ks)
  show ?case
  proof (cases "map_of (ownProps ob) k")
    case None
    with Cons.IH [OF Cons.prems] assms show ?thesis
      by (simp add: map_filter_simps)
  next
    case (Some v)
    let ?vs = "List.map_filter (map_of (ownProps ob)) ks"
    have fresh: "js_String c \<notin> fst ` set upd" using Cons.prems by auto
    have "fst ` set (upd @ [(js_String c, v)]) \<inter> js_String ` {Suc c..} = {}"
      using Cons.prems by (auto dest: js_String_inj)
    from Cons.IH [OF this]
    have "assignGroupLoop ob ks (upd @ [(js_String c, v)]) (Suc c) =
       Inr ((upd @ [(js_String c, v)]) @ zip (map js_String [Suc c ..< Suc c + length ?vs]) ?vs,
            Suc c + length ?vs)" .
    moreover have "[c ..< c + length (v # ?vs)] = c # [Suc c ..< Suc c + length ?vs]"
      by (simp add: upt_conv_Cons del: upt_Suc)
    ultimately show ?thesis
      using assms Some by (simp add: map_filter_simps update_fresh [OF fresh] del: upt_Suc)
  qed
qed

lemma assignGroupLoop_throws:
  "\<not> hasOwnPropertyCallable ob \<Longrightarrow> ks \<noteq> [] \<Longrightarrow> assignGroupLoop ob ks upd c = Inl TypeError"
  by (cases ks) auto

lemma map_filter_own_keys:
  "distinct (map fst L) \<Longrightarrow> set xs \<subseteq> set L \<Longrightarrow>
   List.map_filter (map_of L) (map fst xs) = map snd xs"
  by (induction xs) (auto simp: map_filter_simps)

lemma map_filter_foreign_keys:
  "\<forall>k \<in> set ks. k \<notin> fst ` set L \<Longrightarrow> List.map_filter (map_of L) ks = []"
proof (induction ks)
  case Nil
  show ?case by (simp add: map_filter_simps)
next
  case (Cons k ks)
  then have "map_of L k = None" by (simp add: map_of_eq_None_iff)
  with Cons show ?case by (simp add: map_filter_simps)
qed

lemma storedGroups_subset: "set (storedGroups tg) \<subseteq> set tg"
  by (auto simp: storedGroups_def own_enum_set)

lemma map_filter_append': "List.map_filter f (xs @ ys) = List.map_filter f xs @ List.map_filter f ys"
  by (simp add: List.map_filter_def)

lemma forInKeys_own_values:
  assumes "distinct (map fst L)"
  shows "List.map_filter (map_of L) (forInKeys \<lparr>ownProps = L, protoNames = pn\<rparr>) = map snd (own_enum L)"
proof -
  have "distinct (map fst (own_enum L))"
    using assms own_enum_wf [of L] by (simp add: wf_obj_def)
  have 1: "List.map_filter (map_of L) (map fst (own_enum L)) = map snd (own_enum L)"
    by (rule map_filter_own_keys [OF assms]) (simp add: own_enum_set)
  have 2: "List.map_filter (map_of L) (filter (\<lambda>k. k \<notin> fst ` set L) names) = []" for names
    by (rule map_filter_foreign_keys) simp
  show ?thesis
    by (cases pn) (simp_all add: forInKeys_def map_filter_append' 1 2 map_filter_simps)
qed

lemma not_callable_keys:
  "\<not> hasOwnPropertyCallable ob \<Longrightarrow> forInKeys ob \<noteq> []"
proof -
  assume a: "\<not> hasOwnPropertyCallable ob"
  show ?thesis
  proof (cases "ownsHasOwnProperty (ownProps ob)")
    case True
    then have "own_enum (ownProps ob) \<noteq> []"
      using own_enum_set [of "ownProps ob"] by (auto simp: ownsHasOwnProperty_def)
    then show ?thesis by (simp add: forInKeys_def)
  next
    case False
    with a obtain names where "protoNames ob = Some names" "''hasOwnProperty'' \<in> set names"
      by (auto simp: hasOwnPropertyCallable_def split: option.splits)
    with False have "''hasOwnProperty'' \<in> set (forInKeys ob)"
      by (simp add: forInKeys_def ownsHasOwnProperty_def)
    then show ?thesis by auto
  qed
qed

lemma assignUniqueTraceGroupIDs_eq:
  assumes "distinct (map fst L)"
  shows "assignUniqueTraceGroupIDs \<lparr>ownProps = L, protoNames = pn\<rparr> c =
     (if hasOwnPropertyCallable \<lparr>ownProps = L, protoNames = pn\<rparr>
      then Inr (zip (map js_String [c ..< c + length L]) (map snd (own_enum L)), c + length L)
      else Inl TypeError)"
proof (cases "hasOwnPropertyCallable \<lparr>ownProps = L, protoNames = pn\<rparr>")
  case True
  from assignGroupLoop_eq [OF True, of "[]" c "forInKeys \<lparr>ownProps = L, protoNames = pn\<rparr>"] True
  show ?thesis
    by (simp add: assignUniqueTraceGroupIDs_def forInKeys_own_values [OF assms] own_enum_length
        del: upt_Suc)
next
  case False
  from assignGroupLoop_throws [OF False not_callable_keys [OF False]] False
  show ?thesis by (simp add: assignUniqueTraceGroupIDs_def)
qed

lemma storedGroups_callable:
  assumes "wf_obj tg" and "\<not> ownsHasOwnProperty tg"
  shows "hasOwnPropertyCallable
           \<lparr>ownProps = map (\<lambda>(k, g). (k, rewrittenGroup ch g)) (storedGroups tg),
            protoNames = map_option groupPropertyNames (map_of tg ''__proto__'')\<rparr>
         = groups_callable tg"
proof -
  have "fst ` set (map (\<lambda>(k, g). (k, rewrittenGroup ch g)) (storedGroups tg)) \<subseteq> fst ` set tg"
    using storedGroups_subset [of tg] by force
  with assms(2) have "\<not> ownsHasOwnProperty (map (\<lambda>(k, g). (k, rewrittenGroup ch g)) (storedGroups tg))"
    unfolding ownsHasOwnProperty_def by blast
  with assms(2) show ?thesis
    by (simp add: hasOwnPropertyCallable_def groups_callable_def split: option.splits)
qed

text \<open>One round of the loop, with the helper calls evaluated.\<close>

lemma unifyLoop_Cons:
  assumes "wf_obj (traceGroups d)"
  shows "unifyLoop M ((k, d) # rest) t g =
     (if ownsHasOwnProperty M \<or> \<not> groups_callable (traceGroups d) then Inl TypeError
      else (case unifyLoop M rest (t + length (traces d))
                   (g + length (storedGroups (traceGroups d))) of
              Inl e \<Rightarrow> Inl e
            | Inr done \<Rightarrow> Inr ((k, renumbered d t g) # done)))"
proof -
  let ?ch = "traceIdChangesOf (traces d) (renumberedTraces (traces d) t)"
  let ?L = "map (\<lambda>(k, g). (k, rewrittenGroup ?ch g)) (storedGroups (traceGroups d))"
  have dl: "distinct (map fst ?L)"
    using storedGroups_keys [OF assms] by (simp add: comp_def case_prod_unfold)
  have en: "own_enum ?L = ?L" by (rule storedGroups_enum)
  have len: "length ?L = length (storedGroups (traceGroups d))" by simp
  have au: "assignUniqueTraceIDs (traces d) t =
      (renumberedTraces (traces d) t, t + length (traces d))"
    by (simp add: assignUniqueTraceIDs_eq renumberedTraces_def)
  show ?thesis
  proof (cases "ownsHasOwnProperty M")
    case True
    then show ?thesis by simp
  next
    case nM: False
    show ?thesis
    proof (cases "ownsHasOwnProperty (traceGroups d)")
      case True
      then have "\<not> groups_callable (traceGroups d)" by (simp add: groups_callable_def)
      with True nM show ?thesis
        by (simp add: au updateTraceDataRefs_eq [OF assms])
    next
      case False
      note sc = storedGroups_callable [OF assms False, of ?ch]
      show ?thesis
      proof (cases "groups_callable (traceGroups d)")
        case True
        with sc have c: "hasOwnPropertyCallable \<lparr>ownProps = ?L,
            protoNames = map_option groupPropertyNames (map_of (traceGroups d) ''__proto__'')\<rparr>"
          by simp
        have ms: "map snd ?L = map (\<lambda>(gk, gd). rewrittenGroup ?ch gd) (storedGroups (traceGroups d))"
          by (induction "storedGroups (traceGroups d)") (auto simp: case_prod_unfold)
        have "assignUniqueTraceGroupIDs \<lparr>ownProps = ?L,
            protoNames = map_option groupPropertyNames (map_of (traceGroups d) ''__proto__'')\<rparr> g =
          Inr (zip (map js_String [g ..< g + length (storedGroups (traceGroups d))])
                 (map (\<lambda>(gk, gd). rewrittenGroup ?ch gd) (storedGroups (traceGroups d))),
               g + length (storedGroups (traceGroups d)))"
          by (simp only: assignUniqueTraceGroupIDs_eq [OF dl] c en len if_True ms)
        then show ?thesis
          using nM False True
          by (simp add: au updateTraceDataRefs_eq [OF assms] renumbered_def del: upt_Suc
              split: sum.splits)
      next
        case nc: False
        with sc have c: "\<not> hasOwnPropertyCallable \<lparr>ownProps = ?L,
            protoNames = map_option groupPropertyNames (map_of (traceGroups d) ''__proto__'')\<rparr>"
          by simp
        have "assignUniqueTraceGroupIDs \<lparr>ownProps = ?L,
            protoNames = map_option groupPropertyNames (map_of (traceGroups d) ''__proto__'')\<rparr> g =
          Inl TypeError"
          by (simp only: assignUniqueTraceGroupIDs_eq [OF dl] c if_False)
        then show ?thesis
          using nM False nc
          by (simp add: au updateTraceDataRefs_eq [OF assms])
      qed
    qed
  qed
qed

section \<open>Properties of the loop\<close>

lemma ownsHasOwnProperty_own_enum: "ownsHasOwnProperty (own_enum ob) = ownsHasOwnProperty ob"
  by (simp add: ownsHasOwnProperty_def own_enum_set)

lemma ownsHasOwnProperty_nonempty: "ownsHasOwnProperty ob \<Longrightarrow> ob \<noteq> []"
  by (auto simp: ownsHasOwnProperty_def)

text \<open>
  The loop raises a \<open>TypeError\<close> in its first round when a document is named
  \<open>hasOwnProperty\<close>, and in the round of a document whose groups make a helper raise
  it; otherwise it returns the renumbered documents.
\<close>

lemma unifyLoop_eq:
  "list_all (\<lambda>(k, d). wf_obj (traceGroups d)) ds \<Longrightarrow>
   unifyLoop M ds t g =
     (if (ds \<noteq> [] \<and> ownsHasOwnProperty M)
         \<or> \<not> list_all (\<lambda>(k, d). groups_callable (traceGroups d)) ds
      then Inl TypeError else Inr (renumberedDocs ds t g))"
proof (induction ds arbitrary: t g)
  case Nil
  show ?case by simp
next
  case (Cons x ds)
  obtain k d where x: "x = (k, d)" by (cases x)
  from Cons.prems have wf: "wf_obj (traceGroups d)"
    and rest: "list_all (\<lambda>(k, d). wf_obj (traceGroups d)) ds"
    by (simp_all add: x)
  show ?case
    unfolding x unifyLoop_Cons [OF wf] Cons.IH [OF rest]
    by (cases ds) auto
qed

lemma modifyIDsToUnique_eq:
  assumes "wf_info info"
  shows "modifyIDsToUnique info =
     (if names_callable info then Inr (renumberedDocs (own_enum info) 1 1) else Inl TypeError)"
proof -
  have "own_enum info \<noteq> []" if "ownsHasOwnProperty info"
    using that ownsHasOwnProperty_nonempty [of "own_enum info"]
    by (simp add: ownsHasOwnProperty_own_enum)
  then show ?thesis
    unfolding modifyIDsToUnique_def unifyLoop_eq [OF wf_info_groups [OF assms]]
    by (auto simp: names_callable_def ownsHasOwnProperty_own_enum list_all_own_enum)
qed

lemma modifyIDsToUnique_Inr:
  assumes "wf_info info" and "modifyIDsToUnique info = Inr out"
  shows "out = renumberedDocs (own_enum info) 1 1" and "names_callable info"
  using assms(2) unfolding modifyIDsToUnique_eq [OF assms(1)]
  by (auto split: if_splits)

lemma renumberedTraces_ids:
  "map id_trace (renumberedTraces ts t) = map js_String [t ..< t + length ts]"
  using assignUniqueTraceIDs_ids [of ts t]
  by (simp add: assignUniqueTraceIDs_eq renumberedTraces_def)

lemma renumberedTraces_length: "length (renumberedTraces ts t) = length ts"
  by (simp add: renumberedTraces_def)

lemma renumberedTraces_nth:
  "i < length ts \<Longrightarrow> id_trace (renumberedTraces ts t ! i) = js_String (t + i)"
  by (simp add: renumberedTraces_def)

lemma renumbered_traces: "traces (renumbered d t g) = renumberedTraces (traces d) t"
  by (simp add: renumbered_def)

lemma renumbered_group_keys:
  "map fst (traceGroups (renumbered d t g)) =
     map js_String [g ..< g + length (storedGroups (traceGroups d))]"
  by (simp add: renumbered_def)

lemma renumberedDocs_keys: "map fst (renumberedDocs ds t g) = map fst ds"
  by (induction ds t g rule: renumberedDocs.induct) simp_all

lemma renumberedDocs_trace_ids:
  "map id_trace (allTraces (renumberedDocs ds t g)) =
     map js_String [t ..< t + sum_list (map (\<lambda>(k, d). length (traces d)) ds)]"
proof (induction ds t g rule: renumberedDocs.induct)
  case (1 t g)
  show ?case by (simp add: allTraces_def)
next
  case (2 k d rest t g)
  let ?n = "sum_list (map (\<lambda>(k, d). length (traces d)) rest)"
  have "map id_trace (allTraces (renumberedDocs ((k, d) # rest) t g)) =
        map id_trace (renumberedTraces (traces d) t)
        @ map id_trace (allTraces (renumberedDocs rest (t + length (traces d))
             (g + length (storedGroups (traceGroups d)))))"
    by (simp add: allTraces_def renumbered_traces)
  also have "\<dots> = map js_String [t ..< t + length (traces d)]
        @ map js_String [t + length (traces d) ..< t + length (traces d) + ?n]"
    by (simp only: renumberedTraces_ids 2)
  also have "\<dots> = map js_String [t ..< t + sum_list (map (\<lambda>(k, d). length (traces d)) ((k, d) # rest))]"
    using upt_split [of t "length (traces d)" ?n]
    by (simp del: upt_Suc)
  finally show ?case .
qed

lemma renumberedDocs_group_keys:
  "map fst (allGroups (renumberedDocs ds t g)) =
     map js_String [g ..< g + sum_list (map (\<lambda>(k, d). length (storedGroups (traceGroups d))) ds)]"
proof (induction ds t g rule: renumberedDocs.induct)
  case (1 t g)
  show ?case by (simp add: allGroups_def)
next
  case (2 k d rest t g)
  let ?m = "length (storedGroups (traceGroups d))"
  let ?n = "sum_list (map (\<lambda>(k, d). length (storedGroups (traceGroups d))) rest)"
  have "map fst (allGroups (renumberedDocs ((k, d) # rest) t g)) =
        map fst (traceGroups (renumbered d t g))
        @ map fst (allGroups (renumberedDocs rest (t + length (traces d)) (g + ?m)))"
    by (simp add: allGroups_def)
  also have "\<dots> = map js_String [g ..< g + ?m] @ map js_String [g + ?m ..< g + ?m + ?n]"
    by (simp only: renumbered_group_keys 2)
  also have "\<dots> = map js_String
      [g ..< g + sum_list (map (\<lambda>(k, d). length (storedGroups (traceGroups d))) ((k, d) # rest))]"
    using upt_split [of g ?m ?n]
    by (simp del: upt_Suc)
  finally show ?case .
qed

lemma renumberedDocs_all2:
  "list_all2 (\<lambda>(k, d) (k', d'). k' = k \<and> (\<exists>t' g'. d' = renumbered d t' g'))
     ds (renumberedDocs ds t g)"
  by (induction ds t g rule: renumberedDocs.induct) auto

section \<open>Properties of the change table and of the documents left by the loop\<close>

lemma map_of_foldl_obj_set:
  "map_of (foldl (\<lambda>acc x. obj_set acc (kf x) (vf x)) acc xs) =
     map_of acc ++ map_of (rev (filter (\<lambda>p. fst p \<noteq> ''__proto__'') (map (\<lambda>x. (kf x, vf x)) xs)))"
proof (induction xs arbitrary: acc)
  case Nil
  show ?case by simp
next
  case (Cons x xs)
  have "map_of (obj_set acc (kf x) (vf x))
          ++ map_of (rev (filter (\<lambda>p. fst p \<noteq> ''__proto__'') (map (\<lambda>x. (kf x, vf x)) xs))) =
        map_of acc
          ++ map_of (rev (filter (\<lambda>p. fst p \<noteq> ''__proto__'') (map (\<lambda>x. (kf x, vf x)) (x # xs))))"
    by (rule ext) (simp add: obj_set_def update_conv' map_add_def split: option.splits)
  with Cons.IH [of "obj_set acc (kf x) (vf x)"] show ?case by simp
qed

lemma fst_set_filter_neq: "fst ` set (filter (\<lambda>p. fst p \<noteq> a) xs) = fst ` set xs - {a}"
  by (induction xs) auto

text \<open>
  What the change table holds for a reference: the new id of a trace that had the
  reference as its id (the last one, when several had), unless the reference is
  \<open>__proto__\<close>; and for \<open>__proto__\<close> and for a reference that is the id of no trace, the
  member of \<open>Object.prototype\<close> of that name if there is one, else \<open>undefined\<close>.
\<close>

lemma obj_get_traceIdChangesOf:
  assumes "length ts' = length ts"
  shows "(r \<in> id_trace ` set ts \<and> r \<noteq> ''__proto__'' \<longrightarrow>
            (\<exists>i < length ts. id_trace (ts ! i) = r
               \<and> obj_get (traceIdChangesOf ts ts') r = Str (id_trace (ts' ! i))))
       \<and> (r \<notin> id_trace ` set ts \<or> r = ''__proto__'' \<longrightarrow>
            obj_get (traceIdChangesOf ts ts') r =
              (if r \<in> set object_prototype_names then Inherited r else Undefined))"
proof -
  let ?kvs = "filter (\<lambda>p. fst p \<noteq> ''__proto__'')
                (map (\<lambda>x. (id_trace (fst x), id_trace (snd x))) (zip ts ts'))"
  have m: "map_of (traceIdChangesOf ts ts') = map_of (rev ?kvs)"
    unfolding traceIdChangesOf_def case_prod_unfold
    by (simp only: map_of_foldl_obj_set) simp
  have keys: "fst ` set ?kvs = id_trace ` set ts - {''__proto__''}"
  proof -
    let ?all = "map (\<lambda>x. (id_trace (fst x), id_trace (snd x))) (zip ts ts')"
    have "map fst ?all = map id_trace (map fst (zip ts ts'))" by simp
    also have "\<dots> = map id_trace ts" using assms by simp
    finally have "set (map fst ?all) = set (map id_trace ts)" by simp
    then have "fst ` set ?all = id_trace ` set ts" by (simp only: set_map)
    then show ?thesis by (simp only: fst_set_filter_neq)
  qed
  show ?thesis
  proof (cases "map_of (rev ?kvs) r")
    case None
    then have "r \<notin> fst ` set (rev ?kvs)" by (simp add: map_of_eq_None_iff)
    then have "r \<notin> id_trace ` set ts \<or> r = ''__proto__''" using keys by auto
    with None show ?thesis by (auto simp: obj_get_def m)
  next
    case (Some v)
    then have in_kvs: "(r, v) \<in> set ?kvs" by (auto dest: map_of_SomeD)
    then have "r \<in> fst ` set ?kvs" by (rule image_eqI [rotated]) simp
    then have r: "r \<in> id_trace ` set ts" "r \<noteq> ''__proto__''"
      unfolding keys by blast+
    from in_kvs have "(r, v) \<in> set (map (\<lambda>x. (id_trace (fst x), id_trace (snd x))) (zip ts ts'))"
      by simp
    then obtain p where p: "p \<in> set (zip ts ts')" "r = id_trace (fst p)" "v = id_trace (snd p)"
      by auto
    then obtain i where i: "i < length ts" "fst p = ts ! i" "snd p = ts' ! i"
      unfolding in_set_zip by metis
    with p Some r show ?thesis by (auto simp: obj_get_def m)
  qed
qed

lemma list_all2_zip_map:
  "length ks = length xs \<Longrightarrow> (\<And>a b k. Q (a, b) (k, h (a, b))) \<Longrightarrow>
   list_all2 Q xs (zip ks (map h xs))"
  by (induction ks xs rule: list_induct2) auto

text \<open>The merge of the example batch, evaluated.\<close>

lemma modifyIDsToUnique_batch_example: "modifyIDsToUnique batch_example = Inr merged_example"
  by (simp add: batch_example_def merged_example_def unifier_eval string_eval)

lemma wf_info_batch_example: "wf_info batch_example"
  by (simp add: batch_example_def wf_info_def wf_obj_def)

section \<open>Properties of the matcher and of the handler\<close>

lemma matches_lit:
  "matches (lit p) (s, k) = (if prefix p s then [(drop (length p) s, k)] else [])"
  by (induction p arbitrary: s) (auto split: list.splits)

lemma match_at_None_iff: "match_at r pre s = None \<longleftrightarrow> matches r (s, []) = []"
  by (auto simp: match_at_def split: list.splits)

lemma rx_search_None_iff:
  "rx_search r pre s = None \<longleftrightarrow> (\<forall>t. suffix t s \<longrightarrow> matches r (t, []) = [])"
proof (induction s arbitrary: pre)
  case Nil
  show ?case by (simp add: match_at_None_iff)
next
  case (Cons c cs)
  show ?case
  proof (cases "match_at r pre (c # cs)")
    case None
    then have "matches r (c # cs, []) = []" by (simp add: match_at_None_iff)
    with None show ?thesis
      by (auto simp: Cons.IH suffix_Cons)
  next
    case (Some m)
    then have "matches r (c # cs, []) \<noteq> []"
      using match_at_None_iff [of r pre "c # cs"] by simp
    with Some show ?thesis
      by (auto simp: suffix_Cons)
  qed
qed

lemma rx_exec_None_iff:
  "rx_exec r s = None \<longleftrightarrow> (\<forall>t. suffix t s \<longrightarrow> matches r (t, []) = [])"
  by (simp add: rx_exec_def rx_search_None_iff)

lemma js_replace_all_no_match:
  "(\<forall>t. suffix t s \<longrightarrow> matches r (t, []) = []) \<Longrightarrow> js_replace_all r f s = s"
proof (induction s)
  case Nil
  then show ?case by (simp add: match_at_def)
next
  case (Cons c cs)
  from Cons.prems have "matches r (c # cs, []) = []" by simp
  moreover from Cons.prems have "\<forall>t. suffix t cs \<longrightarrow> matches r (t, []) = []"
    by (simp add: suffix_Cons)
  ultimately show ?case using Cons.IH by (simp add: match_at_def)
qed

text \<open>An expression that starts with a literal matches only where the literal occurs.\<close>

lemma matches_Cat_lit_Nil:
  "\<not> prefix p s \<Longrightarrow> matches (Cat (lit p) r) (s, k) = []"
  by (simp add: matches_lit)

lemma no_sublist_no_prefix: "\<not> sublist p s \<Longrightarrow> suffix t s \<Longrightarrow> \<not> prefix p t"
  by (auto simp: sublist_altdef')

lemma extractLatexExpression_no_marker:
  assumes "\<not> sublist ''LaTeX:'' input"
  shows "extractLatexExpression input = Inl TypeError"
proof -
  have "rx_exec latex_regex input = None"
    unfolding rx_exec_None_iff latex_regex_def
    using no_sublist_no_prefix [OF assms]
    by (simp add: matches_Cat_lit_Nil del: lit.simps matches.simps)
  then show ?thesis by (simp add: extractLatexExpression_def)
qed

lemma promise_all_Inl:
  "\<exists>p \<in> set ps. isl p \<Longrightarrow> \<exists>e. promise_all ps = Inl e"
  by (induction ps rule: promise_all.induct) (auto split: sum.splits)

lemma promise_all_Inr:
  "\<forall>p \<in> set ps. \<not> isl p \<Longrightarrow> promise_all ps = Inr (map projr ps)"
  by (induction ps rule: promise_all.induct) (auto split: sum.splits)

lemma handleGet_failed_invocation:
  assumes "i < length lastWrittenNumbers"
    and "isl (recognise (exec i (buildSeshatCommands PATH lastWrittenNumbers ! i)))"
  shows "handleGet exec extractAllInformation createFileFromInfo PATH lastWrittenNumbers =
           Status500 ''Internal Server Error''"
proof -
  let ?cmds = "buildSeshatCommands PATH lastWrittenNumbers"
  let ?ps = "map (\<lambda>(i, command). recognise (exec i command)) (enumerate 0 ?cmds)"
  have len: "length ?cmds = length lastWrittenNumbers"
    by (simp add: buildSeshatCommands_def)
  with assms(1) have "?ps ! i = recognise (exec i (?cmds ! i))"
    by (simp add: nth_enumerate_eq)
  moreover have "?ps ! i \<in> set ?ps"
    using assms(1) len by (intro nth_mem) simp
  ultimately have "\<exists>p \<in> set ?ps. isl p" using assms(2) by metis
  then obtain e where "promise_all ?ps = Inl e" using promise_all_Inl by blast
  then show ?thesis by (simp add: handleGet_def)
qed

lemma js_replace_all_lit_hit:
  assumes "p \<noteq> []"
  shows "js_replace_all (lit p) (\<lambda>m. rep) (p @ b) = rep @ js_replace_all (lit p) (\<lambda>m. rep) b"
proof -
  obtain c cs where pb: "p @ b = c # cs" using assms by (cases p) auto
  have "matches (lit p) (p @ b, []) = [(b, [])]" by (simp add: matches_lit)
  then have "match_at (lit p) [] (c # cs) =
      Some \<lparr>m_before = [], m_text = take (length (c # cs) - length b) (c # cs), m_after = b, m_groups = []\<rparr>"
    by (simp add: match_at_def flip: pb)
  moreover have "length b < length (c # cs)" using assms by (simp flip: pb)
  ultimately have "js_replace_all (lit p) (\<lambda>m. rep) (c # cs) = rep @ js_replace_all (lit p) (\<lambda>m. rep) b"
    by simp
  then show ?thesis by (simp add: pb)
qed

lemma js_replace_all_lit_miss:
  assumes "\<not> prefix p (c # cs)"
  shows "js_replace_all (lit p) f (c # cs) = c # js_replace_all (lit p) f cs"
  using assms by (simp add: match_at_def matches_lit)

lemma js_replace_all_lit_first:
  assumes "p \<noteq> []" and "\<not> sublist p (a @ butlast p)"
  shows "js_replace_all (lit p) (\<lambda>m. rep) (a @ p @ b) =
           a @ rep @ js_replace_all (lit p) (\<lambda>m. rep) b"
  using assms(2)
proof (induction a)
  case Nil
  show ?case using js_replace_all_lit_hit [OF assms(1)] by simp
next
  case (Cons x a)
  from Cons.prems have np: "\<not> prefix p ((x # a) @ butlast p)" and ns: "\<not> sublist p (a @ butlast p)"
    by (auto simp: sublist_Cons_right)
  have "\<not> prefix p ((x # a) @ p @ b)"
  proof
    assume 1: "prefix p ((x # a) @ p @ b)"
    have "p @ b = butlast p @ (last p # b)" using assms(1) by simp
    then have "(x # a) @ p @ b = ((x # a) @ butlast p) @ (last p # b)" by simp
    then have 2: "prefix ((x # a) @ butlast p) ((x # a) @ p @ b)"
      by (metis prefixI)
    have "length p \<le> length ((x # a) @ butlast p)" by simp
    from prefix_length_prefix [OF 1 2 this] np show False by contradiction
  qed
  then have "js_replace_all (lit p) (\<lambda>m. rep) ((x # a) @ p @ b) =
             x # js_replace_all (lit p) (\<lambda>m. rep) (a @ p @ b)"
    using js_replace_all_lit_miss [of p x "a @ p @ b"] by simp
  with Cons.IH [OF ns] show ?case by simp
qed

lemma js_replace_all_lit_none:
  "\<not> sublist p s \<Longrightarrow> js_replace_all (lit p) f s = s"
  by (rule js_replace_all_no_match) (auto simp: matches_lit dest: no_sublist_no_prefix)

lemma in_Cat:
  "st' \<in> set (matches (Cat a b) st) \<longleftrightarrow> (\<exists>st1 \<in> set (matches a st). st' \<in> set (matches b st1))"
  by auto

lemma in_Alt:
  "st' \<in> set (matches (Alt a b) st) \<longleftrightarrow> st' \<in> set (matches a st) \<or> st' \<in> set (matches b st)"
  by simp

lemma in_Grp:
  "(rest, caps') \<in> set (matches (Grp i r) (s, caps)) \<longleftrightarrow>
     (\<exists>caps''. caps' = (i, take (length s - length rest) s) # caps'' \<and>
        (rest, caps'') \<in> set (matches r (s, caps)))"
  by auto

lemma star_lazy_length:
  "st' \<in> set (star_lazy f n st) \<Longrightarrow> length (fst st') \<le> length (fst st)"
proof (induction n arbitrary: st)
  case 0
  then show ?case by simp
next
  case (Suc n)
  from Suc.prems consider "st' = st"
    | st1 where "length (fst st1) < length (fst st)" "st' \<in> set (star_lazy f n st1)"
    by auto
  then show ?case
  proof cases
    case 1
    then show ?thesis by simp
  next
    case 2
    with Suc.IH [of st1] show ?thesis by simp
  qed
qed

lemma star_greedy_length:
  "st' \<in> set (star_greedy f n st) \<Longrightarrow> length (fst st') \<le> length (fst st)"
proof (induction n arbitrary: st)
  case 0
  then show ?case by simp
next
  case (Suc n)
  from Suc.prems consider "st' = st"
    | st1 where "length (fst st1) < length (fst st)" "st' \<in> set (star_greedy f n st1)"
    by auto
  then show ?case
  proof cases
    case 1
    then show ?thesis by simp
  next
    case 2
    with Suc.IH [of st1] show ?thesis by simp
  qed
qed

lemma star_lazy_caps:
  assumes "\<And>st st'. st' \<in> set (f st) \<Longrightarrow> snd st' = snd st"
  shows "st' \<in> set (star_lazy f n st) \<Longrightarrow> snd st' = snd st"
proof (induction n arbitrary: st)
  case 0
  then show ?case by simp
next
  case (Suc n)
  from Suc.prems consider "st' = st"
    | st1 where "st1 \<in> set (f st)" "st' \<in> set (star_lazy f n st1)"
    by auto
  then show ?case
  proof cases
    case 1
    then show ?thesis by simp
  next
    case 2
    with Suc.IH [of st1] assms [of st1 st] show ?thesis by simp
  qed
qed

lemma star_greedy_caps:
  assumes "\<And>st st'. st' \<in> set (f st) \<Longrightarrow> snd st' = snd st"
  shows "st' \<in> set (star_greedy f n st) \<Longrightarrow> snd st' = snd st"
proof (induction n arbitrary: st)
  case 0
  then show ?case by simp
next
  case (Suc n)
  from Suc.prems consider "st' = st"
    | st1 where "st1 \<in> set (f st)" "st' \<in> set (star_greedy f n st1)"
    by auto
  then show ?case
  proof cases
    case 1
    then show ?thesis by simp
  next
    case 2
    with Suc.IH [of st1] assms [of st1 st] show ?thesis by simp
  qed
qed

lemma star_greedy_self: "st \<in> set (star_greedy f n st)"
  by (cases n) simp_all

lemma matches_length:
  "st' \<in> set (matches r st) \<Longrightarrow> length (fst st') \<le> length (fst st)"
proof (induction r arbitrary: st st')
  case (Cat a b)
  then obtain st1 where "st1 \<in> set (matches a st)" "st' \<in> set (matches b st1)"
    by (auto simp: in_Cat simp del: matches.simps)
  with Cat.IH(1) [of st1 st] Cat.IH(2) [of st' st1] show ?case by simp
next
  case (Alt a b)
  from Alt.prems have "st' \<in> set (matches a st) \<or> st' \<in> set (matches b st)" by simp
  then show ?case using Alt.IH by blast
next
  case (Star a)
  then show ?case by (auto dest: star_greedy_length)
next
  case (LazyStar a)
  then show ?case by (auto dest: star_lazy_length)
next
  case (Grp i a)
  obtain s caps where st: "st = (s, caps)" by (cases st)
  obtain rest caps' where st': "st' = (rest, caps')" by (cases st')
  from Grp.prems obtain caps'' where "(rest, caps'') \<in> set (matches a (s, caps))"
    unfolding st st' in_Grp by blast
  with Grp.IH [of "(rest, caps'')" "(s, caps)"] show ?case by (simp add: st st')
qed (cases st; auto split: list.splits if_splits)+

lemma groupfree_caps:
  "groupfree r \<Longrightarrow> st' \<in> set (matches r st) \<Longrightarrow> snd st' = snd st"
proof (induction r arbitrary: st st')
  case (Cat a b)
  then obtain st1 where "st1 \<in> set (matches a st)" "st' \<in> set (matches b st1)"
    by (auto simp: in_Cat simp del: matches.simps)
  with Cat.IH(1) [of st1 st] Cat.IH(2) [of st' st1] Cat.prems(1) show ?case by simp
next
  case (Alt a b)
  from Alt.prems have "st' \<in> set (matches a st) \<or> st' \<in> set (matches b st)"
    and "groupfree a" "groupfree b" by simp_all
  then show ?case using Alt.IH by blast
next
  case (Star a)
  then have "\<And>st st'. st' \<in> set (matches a st) \<Longrightarrow> snd st' = snd st" by simp
  from star_greedy_caps [of "matches a", OF this] Star.prems(2) show ?case by simp
next
  case (LazyStar a)
  then have "\<And>st st'. st' \<in> set (matches a st) \<Longrightarrow> snd st' = snd st" by simp
  from star_lazy_caps [of "matches a", OF this] LazyStar.prems(2) show ?case by simp
next
  case (Grp i a)
  then show ?case by simp
qed (cases st; auto split: list.splits if_splits)+

lemma groupfree_lit: "groupfree (lit p)"
  by (induction p) simp_all

lemma in_LazyPlus_Dot:
  assumes "(rest, caps') \<in> set (matches (LazyPlus Dot) (s, caps))"
  shows "caps' = caps \<and> length rest < length s"
proof -
  from assms obtain s1 c1 where 1: "(s1, c1) \<in> set (matches Dot (s, caps))"
    and 2: "(rest, caps') \<in> set (matches (LazyStar Dot) (s1, c1))"
    unfolding LazyPlus_def in_Cat by fastforce
  from 1 have "c1 = caps" "length s1 < length s"
    by (auto split: list.splits if_splits)
  moreover from groupfree_caps [OF _ 2] have "caps' = c1" by simp
  moreover from matches_length [OF 2] have "length rest \<le> length s1" by simp
  ultimately show ?thesis by simp
qed

lemma in_lit:
  "(rest, caps') \<in> set (matches (lit p) (s, caps)) \<longleftrightarrow> prefix p s \<and> rest = drop (length p) s \<and> caps' = caps"
  by (auto simp: matches_lit)

lemma operator_regex_groupfree: "groupfree operator_regex"
  by (simp add: operator_regex_def groupfree_lit del: lit.simps)

lemma sum_form_groups:
  assumes "(rest, caps') \<in> set (matches sum_form_regex (s, caps))"
  shows "\<exists>x y. caps' = (3, x) # (4, y) # caps"
proof -
  from assms obtain c3 where c': "caps' = (3, take (length s - length rest) s) # c3"
    and 1: "(rest, c3) \<in> set (matches (Cat (lit (bsl # ''sum'')) (Cat (Star Spc) (Grp 4 (LazyStar Dot)))) (s, caps))"
    unfolding sum_form_regex_def in_Grp by blast
  from 1 obtain s1 c1 s2 c2 where 2: "(s1, c1) \<in> set (matches (lit (bsl # ''sum'')) (s, caps))"
    and 3: "(s2, c2) \<in> set (matches (Star Spc) (s1, c1))"
    and 4: "(rest, c3) \<in> set (matches (Grp 4 (LazyStar Dot)) (s2, c2))"
    unfolding in_Cat by fastforce
  from 2 have "c1 = caps" unfolding in_lit by simp
  moreover from groupfree_caps [OF _ 3] have "c2 = c1" by simp
  moreover from 4 obtain c4 where "c3 = (4, take (length s2 - length rest) s2) # c4"
    and 5: "(rest, c4) \<in> set (matches (LazyStar Dot) (s2, c2))"
    unfolding in_Grp by blast
  moreover from groupfree_caps [OF _ 5] have "c4 = c2" by simp
  ultimately show ?thesis using c' by blast
qed

lemma set_form_groups:
  assumes "(rest, caps') \<in> set (matches set_form_regex (s, caps))"
  shows "\<exists>x y. caps' = (5, x) # (6, y) # caps \<and> y \<noteq> []"
proof -
  from assms obtain s5 c5 where 1: "(s5, c5) \<in> set (matches
          (Grp 5 (Cat (lit (bsl # ''{'')) (Cat (Grp 6 (LazyPlus Dot)) (lit (bsl # ''}''))))) (s, caps))"
    and 2: "(rest, caps') \<in> set (matches (Opt (Chr (CHR ''3''))) (s5, c5))"
    unfolding set_form_regex_def in_Cat by fastforce
  have "groupfree (Opt (Chr (CHR ''3'')))" by (simp add: Opt_def)
  from groupfree_caps [OF this 2] have c': "caps' = c5" by simp
  from 1 obtain c where c5: "c5 = (5, take (length s - length s5) s) # c"
    and 3: "(s5, c) \<in> set (matches (Cat (lit (bsl # ''{'')) (Cat (Grp 6 (LazyPlus Dot)) (lit (bsl # ''}'')))) (s, caps))"
    unfolding in_Grp by blast
  from 3 obtain s1 c1 s2 c2 where 4: "(s1, c1) \<in> set (matches (lit (bsl # ''{'')) (s, caps))"
    and 5: "(s2, c2) \<in> set (matches (Grp 6 (LazyPlus Dot)) (s1, c1))"
    and 6: "(s5, c) \<in> set (matches (lit (bsl # ''}'')) (s2, c2))"
    unfolding in_Cat by fastforce
  from 4 have c1: "c1 = caps" unfolding in_lit by simp
  from 6 have c2: "c = c2" unfolding in_lit by simp
  from 5 obtain c6 where c2': "c2 = (6, take (length s1 - length s2) s1) # c6"
    and 7: "(s2, c6) \<in> set (matches (LazyPlus Dot) (s1, c1))"
    unfolding in_Grp by blast
  from in_LazyPlus_Dot [OF 7] have "c6 = c1" "length s2 < length s1" by simp_all
  then have "take (length s1 - length s2) s1 \<noteq> []" by auto
  with c' c5 c2 c2' c1 \<open>c6 = c1\<close> show ?thesis by blast
qed

lemma hint_regex_groups:
  assumes "(rest, caps) \<in> set (matches hint_regex (t, []))"
  shows "map_of caps 1 \<noteq> None
    \<and> ((\<exists>x. map_of caps 6 = Some x \<and> x \<noteq> []) \<or> (map_of caps 6 = None \<and> map_of caps 4 \<noteq> None))"
proof -
  from assms obtain s1 c1 s2 c2 s3 c3 where
    1: "(s1, c1) \<in> set (matches (Grp 1 operator_regex) (t, []))"
    and 2: "(s2, c2) \<in> set (matches (lit ''_{'') (s1, c1))"
    and 3: "(s3, c3) \<in> set (matches (Grp 2 (Alt sum_form_regex set_form_regex)) (s2, c2))"
    and 4: "(rest, caps) \<in> set (matches (Chr (CHR ''}'')) (s3, c3))"
    unfolding hint_regex_def in_Cat by fastforce
  from 1 obtain c0 x1 where "c1 = (1, x1) # c0" and "(s1, c0) \<in> set (matches operator_regex (t, []))"
    unfolding in_Grp by blast
  with groupfree_caps [OF operator_regex_groupfree, of "(s1, c0)" "(t, [])"]
  have c1: "c1 = [(1, x1)]" by simp
  from 2 have c2: "c2 = c1" unfolding in_lit by simp
  from groupfree_caps [OF _ 4] have c: "caps = c3" by simp
  from 3 obtain c' x2 where c3: "c3 = (2, x2) # c'"
    and 5: "(s3, c') \<in> set (matches (Alt sum_form_regex set_form_regex) (s2, c2))"
    unfolding in_Grp by blast
  from 5 consider "(s3, c') \<in> set (matches sum_form_regex (s2, c2))"
    | "(s3, c') \<in> set (matches set_form_regex (s2, c2))"
    unfolding in_Alt by blast
  then show ?thesis
  proof cases
    case 1
    from sum_form_groups [OF this] obtain x y where "c' = (3, x) # (4, y) # c2" by blast
    with c c3 c2 c1 show ?thesis by simp
  next
    case 2
    from set_form_groups [OF this] obtain x y where "c' = (5, x) # (6, y) # c2" "y \<noteq> []" by blast
    with c c3 c2 c1 show ?thesis by simp
  qed
qed

lemma match_at_SomeD:
  "match_at r pre t = Some m \<Longrightarrow> (m_after m, m_groups m) \<in> set (matches r (t, []))"
  by (auto simp: match_at_def split: list.splits)

lemma rx_search_SomeD:
  "rx_search r pre s = Some m \<Longrightarrow>
   \<exists>t. suffix t s \<and> (m_after m, m_groups m) \<in> set (matches r (t, []))"
proof (induction s arbitrary: pre)
  case Nil
  then show ?case by (auto dest: match_at_SomeD)
next
  case (Cons c cs)
  show ?case
  proof (cases "match_at r pre (c # cs)")
    case None
    with Cons.prems have "rx_search r (pre @ [c]) cs = Some m" by simp
    from Cons.IH [OF this] show ?thesis by (auto simp: suffix_Cons)
  next
    case (Some m')
    with Cons.prems have "m' = m" by simp
    with Some match_at_SomeD [of r pre "c # cs" m] show ?thesis by (auto simp: suffix_Cons)
  qed
qed

lemma correctHint_total: "\<exists>out. correctHint h = Inr out"
proof (cases "rx_exec hint_regex h")
  case None
  then show ?thesis by (simp add: correctHint_def)
next
  case (Some m)
  then obtain t where "(m_after m, m_groups m) \<in> set (matches hint_regex (t, []))"
    unfolding rx_exec_def by (blast dest: rx_search_SomeD)
  from hint_regex_groups [OF this]
  have "(\<exists>x. grp m 6 = Some x \<and> x \<noteq> []) \<or> (grp m 6 = None \<and> grp m 4 \<noteq> None)"
    by (simp add: grp_def)
  then show ?thesis
    by (auto simp: correctHint_def Some Let_def split: option.splits sum.splits)
qed

lemma correctHint_no_match: "rx_exec hint_regex h = None \<Longrightarrow> correctHint h = Inr h"
  by (simp add: correctHint_def)

lemma correctHints_eq:
  "correctHints n results =
     Inr (map (\<lambda>(i, r). if i mod 2 = 0 then r else projr (correctHint r)) (enumerate n results))"
proof (induction results arbitrary: n)
  case Nil
  show ?case by simp
next
  case (Cons r rs)
  obtain out where "correctHint r = Inr out" using correctHint_total by blast
  then show ?case by (simp add: Cons.IH)
qed

lemma normalizeResults_eq:
  "normalizeResults results =
     Inr (map (\<lambda>(i, r). cleanup (if i mod 2 = 0 then r else projr (correctHint r)))
            (enumerate 0 results))"
  by (simp add: normalizeResults_def correctHints_eq case_prod_unfold)

lemma cleanup_no_pattern:
  assumes "rx_exec underscore_after_eq_regex h = None"
    and "rx_exec double_brace_regex h = None"
    and "rx_exec underscore_before_op_regex h = None"
  shows "cleanup h = h"
  using assms unfolding cleanup_def rx_exec_None_iff
  by (simp add: js_replace_all_no_match)

lemma latex_regex_groups:
  assumes "(rest, caps) \<in> set (matches latex_regex (t, []))"
  shows "map_of caps 1 \<noteq> None"
proof -
  from assms obtain s1 c1 s2 c2 where "(rest, caps) \<in> set (matches (Grp 1 (Star Dot)) (s2, c2))"
    unfolding latex_regex_def in_Cat by fastforce
  then show ?thesis unfolding in_Grp by auto
qed

lemma latex_regex_matches:
  assumes "prefix ''LaTeX:'' t"
  shows "matches latex_regex (t, []) \<noteq> []"
proof -
  let ?t' = "drop (length ''LaTeX:'') t"
  have 1: "(?t', []) \<in> set (matches (lit ''LaTeX:'') (t, []))"
    using assms unfolding in_lit by simp
  have 2: "(?t', []) \<in> set (matches (Star Spc) (?t', []))"
    by (simp add: star_greedy_self)
  have "(?t', []) \<in> set (matches (Star Dot) (?t', []))"
    by (simp add: star_greedy_self)
  then have 3: "(?t', [(1, take (length ?t' - length ?t') ?t')]) \<in> set (matches (Grp 1 (Star Dot)) (?t', []))"
    unfolding in_Grp by blast
  from 1 2 3 have "(?t', [(1, take (length ?t' - length ?t') ?t')]) \<in> set (matches latex_regex (t, []))"
    unfolding latex_regex_def in_Cat by blast
  then show ?thesis by auto
qed

lemma extractLatexExpression_marker:
  assumes "sublist ''LaTeX:'' input"
  shows "\<exists>e. extractLatexExpression input = Inr e"
proof -
  from assms obtain t where "suffix t input" "prefix ''LaTeX:'' t"
    by (auto simp: sublist_altdef')
  with latex_regex_matches have "rx_exec latex_regex input \<noteq> None"
    unfolding rx_exec_None_iff by blast
  then obtain m where m: "rx_exec latex_regex input = Some m" by blast
  then obtain t' where "(m_after m, m_groups m) \<in> set (matches latex_regex (t', []))"
    unfolding rx_exec_def by (blast dest: rx_search_SomeD)
  from latex_regex_groups [OF this] have "grp m 1 \<noteq> None" by (simp add: grp_def)
  with m show ?thesis by (auto simp: extractLatexExpression_def)
qed

lemma recognise_ok:
  assumes "sublist ''LaTeX:'' out"
  shows "\<not> isl (recognise (ExecResolved out []))"
  using extractLatexExpression_marker [OF assms] by (auto simp: recognise_def simp del: lit.simps)

lemma handleGet_success:
  assumes ok: "\<forall>i < length lastWrittenNumbers.
      \<not> isl (recognise (exec i (buildSeshatCommands PATH lastWrittenNumbers ! i)))"
    and "assembleSingleInkML extractAllInformation createFileFromInfo lastWrittenNumbers = Inr w"
  shows "handleGet exec extractAllInformation createFileFromInfo PATH lastWrittenNumbers =
     Send (map (\<lambda>i. cleanup
             (if i mod 2 = 0
              then projr (recognise (exec i (buildSeshatCommands PATH lastWrittenNumbers ! i)))
              else projr (correctHint
                     (projr (recognise (exec i (buildSeshatCommands PATH lastWrittenNumbers ! i)))))))
           [0 ..< length lastWrittenNumbers])"
proof -
  let ?cmds = "buildSeshatCommands PATH lastWrittenNumbers"
  let ?ps = "map (\<lambda>(i, command). recognise (exec i command)) (enumerate 0 ?cmds)"
  have len: "length ?cmds = length lastWrittenNumbers"
    by (simp add: buildSeshatCommands_def)
  have ps: "?ps = map (\<lambda>i. recognise (exec i (?cmds ! i))) [0 ..< length lastWrittenNumbers]"
    by (rule nth_equalityI) (simp_all add: len nth_enumerate_eq)
  have "\<forall>p \<in> set ?ps. \<not> isl p"
    unfolding ps using ok by auto
  then have "promise_all ?ps = Inr (map projr ?ps)" by (rule promise_all_Inr)
  moreover have "map (\<lambda>(i, r). cleanup (if i mod 2 = 0 then r else projr (correctHint r)))
            (enumerate 0 (map projr ?ps)) =
        map (\<lambda>i. cleanup (if i mod 2 = 0 then projr (recognise (exec i (?cmds ! i)))
              else projr (correctHint (projr (recognise (exec i (?cmds ! i)))))))
           [0 ..< length lastWrittenNumbers]"
    unfolding ps by (rule nth_equalityI) (simp_all add: nth_enumerate_eq)
  ultimately show ?thesis
    using assms(2) by (simp add: handleGet_def normalizeResults_eq Let_def)
qed

section \<open>The Unifier: uniqueness, references, order\<close>

text \<open>
  C5. The traces of a document keep their order and their payload, and the new ids are the
  consecutive counter values: the trace at position \<open>i\<close> gets \<open>String(c + i)\<close>, where
  \<open>c\<close> is the counter on entry; read as numbers the new ids are \<open>c, c + 1, ...\<close>, and
  the counter returned is \<open>c\<close> plus the number of traces.
\<close>

theorem C5_assignUniqueTraceIDs_consecutive:
  "fst (assignUniqueTraceIDs ts c) =
     map (\<lambda>i. (ts ! i)\<lparr>id_trace := js_String (c + i)\<rparr>) [0 ..< length ts]
   \<and> map (parse_nat \<circ> id_trace) (fst (assignUniqueTraceIDs ts c)) = [c ..< c + length ts]
   \<and> snd (assignUniqueTraceIDs ts c) = c + length ts"
proof -
  have "map (\<lambda>(t, n). t\<lparr>id_trace := js_String n\<rparr>) (zip ts [c ..< c + length ts]) =
        map (\<lambda>i. (ts ! i)\<lparr>id_trace := js_String (c + i)\<rparr>) [0 ..< length ts]"
    by (rule nth_equalityI) simp_all
  then have one: "fst (assignUniqueTraceIDs ts c) =
        map (\<lambda>i. (ts ! i)\<lparr>id_trace := js_String (c + i)\<rparr>) [0 ..< length ts]"
    by (simp only: assignUniqueTraceIDs_eq fst_conv)
  have "map (parse_nat \<circ> id_trace) (fst (assignUniqueTraceIDs ts c)) =
        map parse_nat (map id_trace (fst (assignUniqueTraceIDs ts c)))"
    by simp
  also have "\<dots> = map (\<lambda>n. n) [c ..< c + length ts]"
    by (simp only: assignUniqueTraceIDs_ids map_map comp_def parse_nat_js_String)
  finally have two: "map (parse_nat \<circ> id_trace) (fst (assignUniqueTraceIDs ts c)) = [c ..< c + length ts]"
    by simp
  from one two assignUniqueTraceIDs_snd [of ts c] show ?thesis
    by blast
qed

text \<open>
  When the merge of a well-formed batch completes, the merged output holds as many traces
  as the input documents together, with pairwise distinct ids, and its groups have
  pairwise distinct names; there are as many groups as the input documents have groups
  not named \<open>__proto__\<close>.
\<close>

lemma unique_ids_when_merge_completes:
  assumes "wf_info info" and "modifyIDsToUnique info = Inr out"
  shows "length (allTraces out) = sum_list (map (\<lambda>(outFile, d). length (traces d)) info)
    \<and> distinct (map id_trace (allTraces out))
    \<and> length (allGroups out) =
        sum_list (map (\<lambda>(outFile, d). length (storedGroups (traceGroups d))) info)
    \<and> distinct (map fst (allGroups out))"
proof -
  let ?T = "sum_list (map (\<lambda>(outFile, d). length (traces d)) info)"
  let ?G = "sum_list (map (\<lambda>(outFile, d). length (storedGroups (traceGroups d))) info)"
  have out: "out = renumberedDocs (own_enum info) 1 1"
    by (rule modifyIDsToUnique_Inr [OF assms])
  have t: "map id_trace (allTraces out) = map js_String [1 ..< 1 + ?T]"
    unfolding out by (simp only: renumberedDocs_trace_ids sum_list_own_enum)
  have g: "map fst (allGroups out) = map js_String [1 ..< 1 + ?G]"
    unfolding out by (simp only: renumberedDocs_group_keys sum_list_own_enum)
  have "length (map id_trace (allTraces out)) = ?T"
    by (simp only: t length_map length_upt add_diff_cancel_left')
  moreover have "distinct (map id_trace (allTraces out))"
    by (simp only: t) (simp add: distinct_map inj_on_js_String del: upt_Suc)
  moreover have "length (map fst (allGroups out)) = ?G"
    by (simp only: g length_map length_upt add_diff_cancel_left')
  moreover have "distinct (map fst (allGroups out))"
    by (simp only: g) (simp add: distinct_map inj_on_js_String del: upt_Suc)
  ultimately show ?thesis by simp
qed

lemma storedGroups_length:
  "''__proto__'' \<notin> fst ` set tg \<Longrightarrow> length (storedGroups tg) = length tg"
proof -
  assume "''__proto__'' \<notin> fst ` set tg"
  then have "filter (\<lambda>(gk, gd). gk \<noteq> ''__proto__'') (own_enum tg) = own_enum tg"
    unfolding filter_id_conv own_enum_set by force
  then show ?thesis by (simp add: storedGroups_def own_enum_length)
qed


text \<open>
  C2. For every well-formed batch in which the references of each group name traces of
  the group's own document, every reference in the merged output is the id of a trace of
  the merged output. Trace ids are string-encoded integers; the proof needs of this only
  that no trace has the id \<open>__proto__\<close>.
\<close>

theorem C2_referential_integrity:
  assumes wf: "wf_info info"
    and ids: "''__proto__'' \<notin> id_trace ` set (allTraces info)"
    and pre: "\<forall>(outFile, d) \<in> set info. \<forall>(gk, gd) \<in> set (traceGroups d).
                set (traceDataRefs gd) \<subseteq> id_trace ` set (traces d)"
    and out: "modifyIDsToUnique info = Inr out"
  shows "\<forall>(outFile, d') \<in> set out. \<forall>(gk, gd') \<in> set (traceGroups d').
           \<forall>r \<in> set (traceDataRefs gd'). \<exists>tr \<in> set (allTraces out). r = Str (id_trace tr)"
proof (intro ballI, clarify)
  fix k' d' gk' gd' r'
  assume kd': "(k', d') \<in> set out"
    and grp: "(gk', gd') \<in> set (traceGroups d')"
    and ref: "r' \<in> set (traceDataRefs gd')"
  have o: "out = renumberedDocs (own_enum info) 1 1"
    by (rule modifyIDsToUnique_Inr [OF wf out])
  from kd' list_all2_in_set2 [OF renumberedDocs_all2 [of "own_enum info" 1 1]]
  obtain x where x: "x \<in> set (own_enum info)"
    and "(case x of (k, d) \<Rightarrow> \<lambda>(k', d'). k' = k \<and> (\<exists>t' g'. d' = renumbered d t' g')) (k', d')"
    unfolding o by blast
  then obtain k d t g where kd: "(k, d) \<in> set info" and d': "d' = renumbered d t g"
    by (auto simp: own_enum_set)
  let ?ch = "traceIdChangesOf (traces d) (renumberedTraces (traces d) t)"
  from grp obtain gk gd where g: "(gk, gd) \<in> set (storedGroups (traceGroups d))"
    and gd': "gd' = rewrittenGroup ?ch gd"
    unfolding d' renumbered_def by (auto dest!: set_zip_rightD)
  from g have g_in: "(gk, gd) \<in> set (traceGroups d)"
    using storedGroups_subset by blast
  from ref obtain r where r: "r \<in> set (traceDataRefs gd)" and r': "r' = obj_get ?ch r"
    unfolding gd' rewrittenGroup_def by auto
  from pre kd g_in r have r_in: "r \<in> id_trace ` set (traces d)" by blast
  with kd have "r \<in> id_trace ` set (allTraces info)"
    by (force simp: allTraces_def)
  with ids have "r \<noteq> ''__proto__''" by blast
  with r_in obj_get_traceIdChangesOf [where ts = "traces d"
      and ts' = "renumberedTraces (traces d) t" and r = r, OF renumberedTraces_length]
  obtain i where i: "i < length (traces d)"
    and eq: "r' = Str (id_trace (renumberedTraces (traces d) t ! i))"
    unfolding r' by blast
  from i have "renumberedTraces (traces d) t ! i \<in> set (traces d')"
    by (simp add: d' renumbered_traces renumberedTraces_length)
  with kd' have "renumberedTraces (traces d) t ! i \<in> set (allTraces out)"
    by (force simp: allTraces_def)
  with eq show "\<exists>tr \<in> set (allTraces out). r' = Str (id_trace tr)" by blast
qed

theorem C2_referential_integrity_witness:
  "wf_info batch_example
   \<and> ''__proto__'' \<notin> id_trace ` set (allTraces batch_example)
   \<and> modifyIDsToUnique batch_example = Inr merged_example
   \<and> set (concat (map (\<lambda>(gk, gd). traceDataRefs gd) (allGroups merged_example)))
       \<subseteq> (\<lambda>tr. Str (id_trace tr)) ` set (allTraces merged_example)"
proof -
  have ids: "''__proto__'' \<notin> id_trace ` set (allTraces batch_example)"
    by (simp add: batch_example_def allTraces_def)
  have pre: "\<forall>(outFile, d) \<in> set batch_example. \<forall>(gk, gd) \<in> set (traceGroups d).
               set (traceDataRefs gd) \<subseteq> id_trace ` set (traces d)"
    by (simp add: batch_example_def)
  from C2_referential_integrity [OF wf_info_batch_example ids pre modifyIDsToUnique_batch_example]
  have "set (concat (map (\<lambda>(gk, gd). traceDataRefs gd) (allGroups merged_example)))
       \<subseteq> (\<lambda>tr. Str (id_trace tr)) ` set (allTraces merged_example)"
    by (fastforce simp: allGroups_def)
  with wf_info_batch_example ids modifyIDsToUnique_batch_example show ?thesis
    by blast
qed

text \<open>
  C3 (as stated, refuted). A group that refers to traces its document lacks does not make
  the merge fail: the merge step completes and hands on a structure in which the
  reference \<open>9\<close> has been replaced by \<open>undefined\<close> and the reference \<open>constructor\<close>
  by the member of \<open>Object.prototype\<close> of that name.
\<close>

theorem C3_counterexample:
  "assembleSingleInkML (\<lambda>nums. Inr batch_dangling) Inr [1] =
     Inr [(''1'', \<lparr>traces = [\<lparr>id_trace = ''1''\<rparr>],
                  traceGroups =
                    [(''1'', \<lparr>traceDataRefs = [Str ''1'', Undefined, Inherited ''constructor''],
                             otherProps = []\<rparr>)]\<rparr>)]"
  by (simp add: assembleSingleInkML_def batch_dangling_def unifier_eval string_eval)

text \<open>
  C3 (amended). For every well-formed batch in which no document and no group is named
  \<open>hasOwnProperty\<close> (and no group named \<open>__proto__\<close> has a property of that name), the
  Unifier signals no error, whatever the references are: the merge step hands the merged
  structure to \<open>createFileFromInfo\<close>. In that structure, document by document and group
  by group in the order of enumeration (the groups not named \<open>__proto__\<close>), every
  reference that is the id of a trace of its own document, and is not \<open>__proto__\<close>, has
  become the new id of such a trace; every other reference has become what the change
  table gives for it: the member of \<open>Object.prototype\<close> of that name if there is one,
  else \<open>undefined\<close>.
\<close>

theorem C3_dangling_reference_rewritten:
  assumes "wf_info info" and "names_callable info"
  shows "\<exists>out. modifyIDsToUnique info = Inr out
    \<and> assembleSingleInkML (\<lambda>nums. Inr info) createFileFromInfo lastWrittenNumbers =
        createFileFromInfo out
    \<and> list_all2 (\<lambda>(outFile, d) (outFile', d'). outFile' = outFile
         \<and> length (traces d') = length (traces d)
         \<and> list_all2 (\<lambda>(gk, gd) (gk', gd').
             list_all2 (\<lambda>r r'.
                 (r \<in> id_trace ` set (traces d) \<and> r \<noteq> ''__proto__'' \<longrightarrow>
                    (\<exists>i < length (traces d). id_trace (traces d ! i) = r
                        \<and> r' = Str (id_trace (traces d' ! i))))
               \<and> (r \<notin> id_trace ` set (traces d) \<or> r = ''__proto__'' \<longrightarrow>
                    r' = (if r \<in> set object_prototype_names then Inherited r else Undefined)))
               (traceDataRefs gd) (traceDataRefs gd'))
           (storedGroups (traceGroups d)) (traceGroups d'))
       (own_enum info) out"
proof -
  let ?out = "renumberedDocs (own_enum info) 1 1"
  let ?R = "\<lambda>d d' r r'.
      (r \<in> id_trace ` set (traces d) \<and> r \<noteq> ''__proto__'' \<longrightarrow>
         (\<exists>i < length (traces d). id_trace (traces d ! i) = r
             \<and> r' = Str (id_trace (traces d' ! i))))
    \<and> (r \<notin> id_trace ` set (traces d) \<or> r = ''__proto__'' \<longrightarrow>
         r' = (if r \<in> set object_prototype_names then Inherited r else Undefined))"
  have m: "modifyIDsToUnique info = Inr ?out"
    using assms by (simp add: modifyIDsToUnique_eq)
  have refs: "list_all2 (?R d (renumbered d t g)) rs
      (map (obj_get (traceIdChangesOf (traces d) (renumberedTraces (traces d) t))) rs)"
    for d t g rs
    unfolding list_all2_map2 renumbered_traces
    by (rule list_all2_refl)
       (use obj_get_traceIdChangesOf [where ts = "traces d"
          and ts' = "renumberedTraces (traces d) t", OF renumberedTraces_length] in blast)
  have groups: "list_all2 (\<lambda>(gk, gd) (gk', gd').
        list_all2 (?R d (renumbered d t g)) (traceDataRefs gd) (traceDataRefs gd'))
      (storedGroups (traceGroups d)) (traceGroups (renumbered d t g))"
    for d t g
  proof -
    let ?ch = "traceIdChangesOf (traces d) (renumberedTraces (traces d) t)"
    have tg: "traceGroups (renumbered d t g) =
        zip (map js_String [g ..< g + length (storedGroups (traceGroups d))])
          (map (\<lambda>(gk, gd). rewrittenGroup ?ch gd) (storedGroups (traceGroups d)))"
      by (simp add: renumbered_def)
    show ?thesis
      unfolding tg
    proof (rule list_all2_zip_map)
      show "length (map js_String [g ..< g + length (storedGroups (traceGroups d))]) =
            length (storedGroups (traceGroups d))"
        by simp
    next
      fix gk gd k
      show "(case (gk, gd) of (gk, gd) \<Rightarrow> \<lambda>(gk', gd').
               list_all2 (?R d (renumbered d t g)) (traceDataRefs gd) (traceDataRefs gd'))
             (k, case (gk, gd) of (gk, gd) \<Rightarrow> rewrittenGroup ?ch gd)"
        unfolding prod.case rewrittenGroup_def traceGroup.select_convs
        by (rule refs)
    qed
  qed
  have "list_all2 (\<lambda>(outFile, d) (outFile', d'). outFile' = outFile
         \<and> length (traces d') = length (traces d)
         \<and> list_all2 (\<lambda>(gk, gd) (gk', gd').
             list_all2 (?R d d') (traceDataRefs gd) (traceDataRefs gd'))
           (storedGroups (traceGroups d)) (traceGroups d'))
       (own_enum info) ?out"
  proof (rule list_all2_mono [OF renumberedDocs_all2])
    fix x y
    assume a: "(case x of (k, d) \<Rightarrow> \<lambda>(k', d'). k' = k \<and> (\<exists>t' g'. d' = renumbered d t' g')) y"
    obtain k d where x: "x = (k, d)" by (cases x)
    obtain k' d' where y: "y = (k', d')" by (cases y)
    from a obtain t' g' where k': "k' = k" and d': "d' = renumbered d t' g'"
      unfolding x y by auto
    have "length (traces d') = length (traces d)"
      by (simp add: d' renumbered_traces renumberedTraces_length)
    with k' groups [of d t' g']
    show "(case x of (outFile, d) \<Rightarrow> \<lambda>(outFile', d'). outFile' = outFile
         \<and> length (traces d') = length (traces d)
         \<and> list_all2 (\<lambda>(gk, gd) (gk', gd').
             list_all2 (?R d d') (traceDataRefs gd) (traceDataRefs gd'))
           (storedGroups (traceGroups d)) (traceGroups d')) y"
      unfolding x y prod.case d' by blast
  qed
  with m show ?thesis
    by (simp add: assembleSingleInkML_def)
qed

theorem C3_dangling_reference_rewritten_witness:
  "wf_info batch_dangling \<and> names_callable batch_dangling
   \<and> (\<exists>out. modifyIDsToUnique batch_dangling = Inr out
    \<and> assembleSingleInkML (\<lambda>nums. Inr batch_dangling) Inr [1] = Inr out
    \<and> list_all2 (\<lambda>(outFile, d) (outFile', d'). outFile' = outFile
         \<and> length (traces d') = length (traces d)
         \<and> list_all2 (\<lambda>(gk, gd) (gk', gd').
             list_all2 (\<lambda>r r'.
                 (r \<in> id_trace ` set (traces d) \<and> r \<noteq> ''__proto__'' \<longrightarrow>
                    (\<exists>i < length (traces d). id_trace (traces d ! i) = r
                        \<and> r' = Str (id_trace (traces d' ! i))))
               \<and> (r \<notin> id_trace ` set (traces d) \<or> r = ''__proto__'' \<longrightarrow>
                    r' = (if r \<in> set object_prototype_names then Inherited r else Undefined)))
               (traceDataRefs gd) (traceDataRefs gd'))
           (storedGroups (traceGroups d)) (traceGroups d'))
       (own_enum batch_dangling) out)"
proof -
  have wf: "wf_info batch_dangling"
    by (simp add: batch_dangling_def wf_info_def wf_obj_def)
  have nc: "names_callable batch_dangling"
    by (simp add: batch_dangling_def names_callable_def groups_callable_def ownsHasOwnProperty_def)
  from C3_dangling_reference_rewritten [OF wf nc, of Inr "[1]"] wf nc show ?thesis
    by blast
qed

text \<open>
  C4 (as stated, refuted). Two documents with the sequence numbers 4294967296 and
  4294967295, put into the batch in this order, are processed in this order, not in
  ascending order: the trace of document 4294967296 gets the id 1. Put into the batch in
  the other order, the same two documents get the other ids.
\<close>

theorem C4_counterexample:
  "modifyIDsToUnique batch_large_numbers =
     Inr [(''4294967296'', \<lparr>traces = [\<lparr>id_trace = ''1''\<rparr>], traceGroups = []\<rparr>),
          (''4294967295'', \<lparr>traces = [\<lparr>id_trace = ''2''\<rparr>], traceGroups = []\<rparr>)]
   \<and> modifyIDsToUnique (rev batch_large_numbers) =
     Inr [(''4294967295'', \<lparr>traces = [\<lparr>id_trace = ''1''\<rparr>], traceGroups = []\<rparr>),
          (''4294967296'', \<lparr>traces = [\<lparr>id_trace = ''2''\<rparr>], traceGroups = []\<rparr>)]"
  by (simp add: batch_large_numbers_def unifier_eval string_eval)

text \<open>
  C4 (amended). The documents are processed in the enumeration order of the batch object:
  first the documents whose sequence number is an array index (below \<open>2^32 - 1\<close>), in
  ascending order of their sequence numbers, then the other documents in the order in
  which they were put into the batch; along that order the new trace ids are 1, 2, 3, ...
  Two batches that hold the same documents, and hold the documents whose name is no array
  index in the same order, give the same merged output.
\<close>

theorem C4_enumeration_order:
  assumes wfi: "wf_info info1" and wf2: "wf_obj info2" and same: "set info1 = set info2"
    and others: "filter (\<lambda>p. array_index (fst p) = None) info1 =
                 filter (\<lambda>p. array_index (fst p) = None) info2"
    and out: "modifyIDsToUnique info1 = Inr out"
  shows "modifyIDsToUnique info2 = Inr out
    \<and> sorted_wrt (<) (map parse_nat (filter (\<lambda>k. array_index k \<noteq> None) (map fst out)))
    \<and> filter (\<lambda>k. array_index k = None) (map fst out) =
        filter (\<lambda>k. array_index k = None) (map fst info1)
    \<and> map fst out = filter (\<lambda>k. array_index k \<noteq> None) (map fst out)
                      @ filter (\<lambda>k. array_index k = None) (map fst out)
    \<and> map (parse_nat \<circ> id_trace) (allTraces out) = [1 ..< 1 + length (allTraces out)]"
proof -
  let ?f = "\<lambda>p::string \<times> _. the (array_index (fst p))"
  let ?P = "\<lambda>p::string \<times> _. array_index (fst p) \<noteq> None"
  let ?A = "sort_key ?f (filter ?P info1)"
  let ?B = "filter (\<lambda>p. array_index (fst p) = None) info1"
  have o: "out = renumberedDocs (own_enum info1) 1 1"
    by (rule modifyIDsToUnique_Inr [OF wfi out])
  have wf1: "wf_obj info1"
    using wfi by (simp add: wf_info_def)
  have d1: "distinct info1" and d2: "distinct info2"
    using wf1 wf2 unfolding wf_obj_def by (auto dest: distinct_map [THEN iffD1])
  then have "mset info1 = mset info2"
    using same by (simp add: set_eq_iff_mset_eq_distinct)
  then have ms: "mset (filter ?P info1) = mset (filter ?P info2)"
    by (simp only: mset_filter)
  have wfA: "wf_obj (filter ?P info1)"
    using wf1 by (simp add: wf_obj_def distinct_map_filter)
  have inj: "inj_on ?f (set (filter ?P info1))"
    by (rule index_key_inj [OF wfA]) auto
  have m2: "mset (filter ?P info1) = mset (sort_key ?f (filter ?P info2))"
    by (simp only: mset_sort ms)
  have s2: "sorted (map ?f (sort_key ?f (filter ?P info2)))"
    by (rule sorted_sort_key)
  have "sort_key ?f (filter ?P info1) = sort_key ?f (filter ?P info2)"
    by (rule sort_key_inj_key_eq [OF m2 inj s2])
  then have "own_enum info1 = own_enum info2"
    by (simp add: own_enum_def others)
  then have one: "modifyIDsToUnique info2 = Inr out"
    using out by (simp add: modifyIDsToUnique_def)
  have keys: "map fst out = map fst ?A @ map fst ?B"
    unfolding o renumberedDocs_keys by (simp add: own_enum_def)
  have fA: "filter (\<lambda>k. array_index k \<noteq> None) (map fst ?A) = map fst ?A"
    "filter (\<lambda>k. array_index k = None) (map fst ?A) = []"
    by (auto simp: filter_id_conv filter_empty_conv)
  have fB: "filter (\<lambda>k. array_index k \<noteq> None) (map fst ?B) = []"
    "filter (\<lambda>k. array_index k = None) (map fst ?B) = map fst ?B"
    by (auto simp: filter_id_conv filter_empty_conv)
  have ix: "filter (\<lambda>k. array_index k \<noteq> None) (map fst out) = map fst ?A"
    and nx: "filter (\<lambda>k. array_index k = None) (map fst out) = map fst ?B"
    unfolding keys filter_append fA fB by simp_all
  have pf: "map parse_nat (map fst ?A) = map ?f ?A"
  proof -
    have "parse_nat (fst p) = ?f p" if "p \<in> set ?A" for p
    proof -
      from that obtain n where n: "array_index (fst p) = Some n" by auto
      then have "fst p = js_String n" by (auto dest: array_index_SomeD)
      then have "parse_nat (fst p) = n" by (simp add: parse_nat_js_String)
      with n show ?thesis by simp
    qed
    then show ?thesis by simp
  qed
  have "sorted (map ?f ?A)" by (rule sorted_sort_key)
  moreover have "distinct (map ?f ?A)"
    using inj d1 by (simp add: distinct_map)
  ultimately have "sorted_wrt (<) (map ?f ?A)"
    by (simp only: strict_sorted_iff)
  then have two: "sorted_wrt (<) (map parse_nat (filter (\<lambda>k. array_index k \<noteq> None) (map fst out)))"
    by (simp only: ix pf)
  have three: "filter (\<lambda>k. array_index k = None) (map fst out) =
        filter (\<lambda>k. array_index k = None) (map fst info1)"
    unfolding nx by (simp add: filter_map comp_def)
  have four: "map fst out = filter (\<lambda>k. array_index k \<noteq> None) (map fst out)
                      @ filter (\<lambda>k. array_index k = None) (map fst out)"
    unfolding ix nx by (rule keys)
  have five: "map (parse_nat \<circ> id_trace) (allTraces out) = [1 ..< 1 + length (allTraces out)]"
  proof -
    let ?T = "sum_list (map (\<lambda>(k, d). length (traces d)) (own_enum info1))"
    have t: "map id_trace (allTraces out) = map js_String [1 ..< 1 + ?T]"
      unfolding o by (rule renumberedDocs_trace_ids)
    then have "length (map id_trace (allTraces out)) = ?T"
      by (simp only: length_map length_upt add_diff_cancel_left')
    then have len: "length (allTraces out) = ?T"
      by simp
    have "map (parse_nat \<circ> id_trace) (allTraces out) = map parse_nat (map id_trace (allTraces out))"
      by simp
    also have "\<dots> = map (\<lambda>n. n) [1 ..< 1 + ?T]"
      by (simp only: t map_map comp_def parse_nat_js_String)
    finally show ?thesis
      by (simp only: len map_ident)
  qed
  from one two three four five show ?thesis by blast
qed

theorem C4_enumeration_order_witness:
  "wf_info batch_mixed_numbers \<and> wf_obj (rotate1 batch_mixed_numbers)
   \<and> set batch_mixed_numbers = set (rotate1 batch_mixed_numbers)
   \<and> modifyIDsToUnique batch_mixed_numbers =
       Inr [(''9'', \<lparr>traces = [\<lparr>id_trace = ''1''\<rparr>], traceGroups = []\<rparr>),
            (''10'', \<lparr>traces = [\<lparr>id_trace = ''2''\<rparr>], traceGroups = []\<rparr>),
            (''4294967296'', \<lparr>traces = [\<lparr>id_trace = ''3''\<rparr>], traceGroups = []\<rparr>)]
   \<and> modifyIDsToUnique (rotate1 batch_mixed_numbers) = modifyIDsToUnique batch_mixed_numbers"
proof -
  have wf: "wf_info batch_mixed_numbers"
    by (simp add: batch_mixed_numbers_def wf_info_def wf_obj_def)
  have o2: "wf_obj (rotate1 batch_mixed_numbers)"
    by (simp add: batch_mixed_numbers_def wf_obj_def)
  have s: "set batch_mixed_numbers = set (rotate1 batch_mixed_numbers)"
    by simp
  have f: "filter (\<lambda>p. array_index (fst p) = None) batch_mixed_numbers =
           filter (\<lambda>p. array_index (fst p) = None) (rotate1 batch_mixed_numbers)"
    by (simp add: batch_mixed_numbers_def string_eval)
  have m: "modifyIDsToUnique batch_mixed_numbers =
       Inr [(''9'', \<lparr>traces = [\<lparr>id_trace = ''1''\<rparr>], traceGroups = []\<rparr>),
            (''10'', \<lparr>traces = [\<lparr>id_trace = ''2''\<rparr>], traceGroups = []\<rparr>),
            (''4294967296'', \<lparr>traces = [\<lparr>id_trace = ''3''\<rparr>], traceGroups = []\<rparr>)]"
    by (simp add: batch_mixed_numbers_def unifier_eval string_eval)
  from C4_enumeration_order [OF wf o2 s f m]
  have "modifyIDsToUnique (rotate1 batch_mixed_numbers) =
       Inr [(''9'', \<lparr>traces = [\<lparr>id_trace = ''1''\<rparr>], traceGroups = []\<rparr>),
            (''10'', \<lparr>traces = [\<lparr>id_trace = ''2''\<rparr>], traceGroups = []\<rparr>),
            (''4294967296'', \<lparr>traces = [\<lparr>id_trace = ''3''\<rparr>], traceGroups = []\<rparr>)]"
    by (rule conjunct1)
  then have "modifyIDsToUnique (rotate1 batch_mixed_numbers) = modifyIDsToUnique batch_mixed_numbers"
    by (simp only: m)
  with wf o2 s m show ?thesis
    by blast
qed

section \<open>The handler: normalizer and failure policy\<close>

text \<open>
  C6 (as stated, refuted). For the hint \<open>=_{\sum i=1}^{n}3\<close> at an odd position the two
  passes do not produce \<open>=\{\sum i=1\}\<close>.
\<close>

theorem C6_counterexample:
  "normalizeResults [''x'', ''=_{'' @ bsl # ''sum i=1}^{n}3''] \<noteq>
     Inr [''x'', ''='' @ bsl # ''{'' @ bsl # ''sum i=1'' @ bsl # ''}'']"
  by code_simp

text \<open>
  C6 (amended). For the hint \<open>=_{\sum i=1}^{n}3\<close> at an odd position the two passes
  produce exactly \<open>=\{i=1\}\<close>: the whole hint is replaced by the operator followed by the
  payload in escaped braces; the payload is the text between the summation symbol and
  the first closing brace, so the summation symbol itself and what follows the match
  (\<open>^{n}3\<close>) are gone, and no underscore remains.
\<close>

theorem C6_sum_hint_example:
  "normalizeResults [primary, ''=_{'' @ bsl # ''sum i=1}^{n}3''] =
     Inr [cleanup primary, ''='' @ bsl # ''{i=1'' @ bsl # ''}'']"
proof -
  have "cleanup (projr (correctHint (''=_{'' @ bsl # ''sum i=1}^{n}3''))) =
        ''='' @ bsl # ''{i=1'' @ bsl # ''}''"
    by code_simp
  then show ?thesis
    by (simp add: normalizeResults_eq)
qed

text \<open>
  C7 (as stated, refuted). No invocation signals an error (the promise is resolved and the
  error channel is empty), and still the caller gets the failure instead of one result
  per identifier: the output has no \<open>LaTeX:\<close> line.
\<close>

theorem C7_counterexample:
  "handleGet (\<lambda>i command. ExecResolved ''no expression'' []) (\<lambda>nums. Inr batch_example) Inr
     ''/opt/seshat'' [1] = Status500 ''Internal Server Error''"
proof -
  have "isl (recognise (ExecResolved ''no expression'' []))"
    by code_simp
  then show ?thesis
    by (intro handleGet_failed_invocation [where i = 0]) simp_all
qed

text \<open>
  C7 (amended). If one invocation is rejected or writes to its error channel, the caller
  receives the one generic failure and no results. If every invocation is resolved with
  an empty error channel and an output that has a \<open>LaTeX:\<close> marker, and the merge step
  completes, the caller receives one result per identifier, in the order of the
  identifiers: the result at position \<open>i\<close> is made from the output of invocation \<open>i\<close>.
\<close>

theorem C7_fail_fast:
  "(i < length lastWrittenNumbers
      \<and> (exec i (buildSeshatCommands PATH lastWrittenNumbers ! i) = ExecRejected
         \<or> (\<exists>out err. exec i (buildSeshatCommands PATH lastWrittenNumbers ! i) = ExecResolved out err
                \<and> err \<noteq> []))
      \<longrightarrow> handleGet exec extractAllInformation createFileFromInfo PATH lastWrittenNumbers =
            Status500 ''Internal Server Error'')
   \<and> ((\<forall>i < length lastWrittenNumbers.
          \<exists>out. exec i (buildSeshatCommands PATH lastWrittenNumbers ! i) = ExecResolved out []
             \<and> sublist ''LaTeX:'' out)
       \<and> assembleSingleInkML extractAllInformation createFileFromInfo lastWrittenNumbers = Inr w
      \<longrightarrow> (\<exists>rs. handleGet exec extractAllInformation createFileFromInfo PATH lastWrittenNumbers = Send rs
            \<and> length rs = length lastWrittenNumbers
            \<and> (\<forall>i < length lastWrittenNumbers.
                  rs ! i = cleanup
                    (if i mod 2 = 0
                     then projr (recognise (exec i (buildSeshatCommands PATH lastWrittenNumbers ! i)))
                     else projr (correctHint (projr (recognise
                            (exec i (buildSeshatCommands PATH lastWrittenNumbers ! i)))))))))"
proof (intro conjI impI)
  assume a: "i < length lastWrittenNumbers
      \<and> (exec i (buildSeshatCommands PATH lastWrittenNumbers ! i) = ExecRejected
         \<or> (\<exists>out err. exec i (buildSeshatCommands PATH lastWrittenNumbers ! i) = ExecResolved out err
                \<and> err \<noteq> []))"
  then have "isl (recognise (exec i (buildSeshatCommands PATH lastWrittenNumbers ! i)))"
    by (auto simp: recognise_def)
  with a show "handleGet exec extractAllInformation createFileFromInfo PATH lastWrittenNumbers =
            Status500 ''Internal Server Error''"
    by (intro handleGet_failed_invocation [where i = i]) simp_all
next
  assume b: "(\<forall>i < length lastWrittenNumbers.
          \<exists>out. exec i (buildSeshatCommands PATH lastWrittenNumbers ! i) = ExecResolved out []
             \<and> sublist ''LaTeX:'' out)
       \<and> assembleSingleInkML extractAllInformation createFileFromInfo lastWrittenNumbers = Inr w"
  then have "\<forall>i < length lastWrittenNumbers.
      \<not> isl (recognise (exec i (buildSeshatCommands PATH lastWrittenNumbers ! i)))"
    using recognise_ok by metis
  from handleGet_success [where exec = exec and PATH = PATH
      and lastWrittenNumbers = lastWrittenNumbers and w = w
      and extractAllInformation = extractAllInformation
      and createFileFromInfo = createFileFromInfo, OF this] b
  show "\<exists>rs. handleGet exec extractAllInformation createFileFromInfo PATH lastWrittenNumbers = Send rs
            \<and> length rs = length lastWrittenNumbers
            \<and> (\<forall>i < length lastWrittenNumbers.
                  rs ! i = cleanup
                    (if i mod 2 = 0
                     then projr (recognise (exec i (buildSeshatCommands PATH lastWrittenNumbers ! i)))
                     else projr (correctHint (projr (recognise
                            (exec i (buildSeshatCommands PATH lastWrittenNumbers ! i)))))))"
    by simp
qed

theorem C7_fail_fast_witness:
  "handleGet (\<lambda>i command. if i = 1 then ExecResolved ''LaTeX: y'' ''error'' else ExecResolved ''LaTeX: x'' [])
      (\<lambda>nums. Inr batch_example) Inr ''/opt/seshat'' [10, 9] = Status500 ''Internal Server Error''
   \<and> (\<exists>rs. handleGet (\<lambda>i command. ExecResolved ''LaTeX: a COMMA b'' [])
              (\<lambda>nums. Inr batch_example) Inr ''/opt/seshat'' [10, 9] = Send rs
          \<and> length rs = 2 \<and> rs ! 1 = ''a, b'')"
proof -
  let ?bad = "\<lambda>(i::nat) (command::string).
      if i = 1 then ExecResolved ''LaTeX: y'' ''error'' else ExecResolved ''LaTeX: x'' []"
  let ?ok = "\<lambda>(i::nat) (command::string). ExecResolved ''LaTeX: a COMMA b'' []"
  let ?ea = "\<lambda>nums::nat list.
      Inr batch_example :: js_error + (trace, (string, unit) traceGroup) inkml obj"
  let ?cf = "Inr :: (trace, (jsref, unit) traceGroup) inkml obj \<Rightarrow>
      js_error + (trace, (jsref, unit) traceGroup) inkml obj"
  have 1: "handleGet ?bad ?ea ?cf ''/opt/seshat'' [10, 9] = Status500 ''Internal Server Error''"
    using C7_fail_fast [of 1 "[10, 9]" ?bad "''/opt/seshat''" ?ea ?cf]
    by simp
  have m: "sublist ''LaTeX:'' ''LaTeX: a COMMA b''" by code_simp
  have e: "cleanup (projr (correctHint (projr (recognise (ExecResolved ''LaTeX: a COMMA b'' []))))) = ''a, b''"
    by code_simp
  have a: "assembleSingleInkML ?ea ?cf [10, 9] = Inr merged_example"
    by (simp add: assembleSingleInkML_def modifyIDsToUnique_batch_example)
  from C7_fail_fast [of 1 "[10, 9]" ?ok "''/opt/seshat''" ?ea ?cf merged_example] m a
  obtain rs where "handleGet ?ok ?ea ?cf ''/opt/seshat'' [10, 9] = Send rs" "length rs = 2"
    "rs ! 1 = cleanup (projr (correctHint (projr (recognise (ExecResolved ''LaTeX: a COMMA b'' [])))))"
    by (auto simp del: lit.simps)
  with e 1 show ?thesis by (auto simp del: lit.simps)
qed

text \<open>
  C8 (as stated, refuted). The hint \<open>a_=b\<close> does not match the pattern, and it is not
  returned unchanged: the final pass removes the underscore.
\<close>

theorem C8_counterexample:
  "rx_exec hint_regex ''a_=b'' = None \<and> normalizeResults [''x'', ''a_=b''] = Inr [''x'', ''a=b'']"
  by code_simp

text \<open>
  C8 (amended). A hint that does not match the pattern is left unchanged by the pattern
  correction, and no error arises; what is returned for it is the hint after the final
  pass, which is the hint itself when none of the three patterns of the final pass occurs
  in it.
\<close>

theorem C8_unmatched_hint:
  assumes "rx_exec hint_regex h = None"
  shows "correctHint h = Inr h
    \<and> (i < length results \<and> i mod 2 = 1 \<and> results ! i = h \<longrightarrow>
         (\<exists>out. normalizeResults results = Inr out \<and> length out = length results
            \<and> out ! i = cleanup h))
    \<and> (rx_exec underscore_after_eq_regex h = None \<and> rx_exec double_brace_regex h = None
         \<and> rx_exec underscore_before_op_regex h = None \<longrightarrow> cleanup h = h)"
proof -
  have 1: "correctHint h = Inr h"
    by (rule correctHint_no_match [OF assms])
  then have "i < length results \<and> i mod 2 = 1 \<and> results ! i = h \<longrightarrow>
         (\<exists>out. normalizeResults results = Inr out \<and> length out = length results
            \<and> out ! i = cleanup h)"
    by (simp add: normalizeResults_eq nth_enumerate_eq)
  with 1 cleanup_no_pattern [of h] show ?thesis by blast
qed

theorem C8_unmatched_hint_witness:
  "rx_exec hint_regex ''x+y'' = None \<and> correctHint ''x+y'' = Inr ''x+y''
   \<and> (\<exists>out. normalizeResults [''a'', ''x+y''] = Inr out \<and> out ! 1 = ''x+y'')"
proof -
  have n: "rx_exec hint_regex ''x+y'' = None" by code_simp
  have c: "rx_exec underscore_after_eq_regex ''x+y'' = None"
    "rx_exec double_brace_regex ''x+y'' = None"
    "rx_exec underscore_before_op_regex ''x+y'' = None"
    by code_simp+
  from C8_unmatched_hint [OF n, of 1 "[''a'', ''x+y'']"] c n show ?thesis
    by auto
qed

text \<open>
  C9 (as stated, refuted). Of two \<open>COMMA\<close> tokens in a row only the first is replaced: the
  space before the second has been taken by the first match.
\<close>

theorem C9_counterexample:
  "recognise (ExecResolved ''LaTeX: 1 COMMA COMMA 2'' []) = Inr ''1, COMMA 2''
   \<and> sublist ''COMMA'' ''1, COMMA 2''"
  by code_simp

text \<open>
  C9 (amended). In the extracted expression every occurrence of \<open>COMMA\<close> with a space on
  either side that is met when the expression is scanned from the left, the scan resuming
  behind the replaced text, is replaced by a comma and a space; an expression in which
  \<open>COMMA\<close> between two spaces does not occur is returned as extracted.
\<close>

theorem C9_COMMA_between_spaces:
  "(extractLatexExpression stdout = Inr e \<longrightarrow>
      recognise (ExecResolved stdout []) = Inr (js_replace_all (lit '' COMMA '') (\<lambda>m. '', '') e))
   \<and> (\<not> sublist '' COMMA '' e \<longrightarrow> js_replace_all (lit '' COMMA '') (\<lambda>m. '', '') e = e)
   \<and> (\<not> sublist '' COMMA '' (a @ '' COMMA'') \<longrightarrow>
        js_replace_all (lit '' COMMA '') (\<lambda>m. '', '') (a @ '' COMMA '' @ b) =
          a @ '', '' @ js_replace_all (lit '' COMMA '') (\<lambda>m. '', '') b)"
proof -
  have "butlast '' COMMA '' = '' COMMA''" by simp
  with js_replace_all_lit_first [of "'' COMMA ''" a "'', ''" b]
  have "\<not> sublist '' COMMA '' (a @ '' COMMA'') \<longrightarrow>
        js_replace_all (lit '' COMMA '') (\<lambda>m. '', '') (a @ '' COMMA '' @ b) =
          a @ '', '' @ js_replace_all (lit '' COMMA '') (\<lambda>m. '', '') b"
    by simp
  moreover have "extractLatexExpression stdout = Inr e \<longrightarrow>
      recognise (ExecResolved stdout []) = Inr (js_replace_all (lit '' COMMA '') (\<lambda>m. '', '') e)"
    by (simp add: recognise_def del: lit.simps)
  ultimately show ?thesis
    using js_replace_all_lit_none [of "'' COMMA ''" e] by blast
qed

theorem C9_COMMA_between_spaces_witness:
  "extractLatexExpression ''LaTeX: x COMMA y'' = Inr ''x COMMA y''
   \<and> recognise (ExecResolved ''LaTeX: x COMMA y'' []) = Inr ''x, y''"
proof -
  have e: "extractLatexExpression ''LaTeX: x COMMA y'' = Inr ''x COMMA y''"
    by code_simp
  have n1: "\<not> sublist '' COMMA '' (''x'' @ '' COMMA'')" by code_simp
  have n2: "\<not> sublist '' COMMA '' ''y''" by code_simp
  from C9_COMMA_between_spaces [of "''LaTeX: x COMMA y''" "''x COMMA y''" "''x''" "''y''"] e n1
  have 1: "recognise (ExecResolved ''LaTeX: x COMMA y'' []) =
        Inr (js_replace_all (lit '' COMMA '') (\<lambda>m. '', '') ''x COMMA y'')"
    and 2: "js_replace_all (lit '' COMMA '') (\<lambda>m. '', '') (''x'' @ '' COMMA '' @ ''y'') =
        ''x'' @ '', '' @ js_replace_all (lit '' COMMA '') (\<lambda>m. '', '') ''y''"
    by blast+
  from C9_COMMA_between_spaces [of "''LaTeX: x COMMA y''" "''y''" "''x''" "''y''"] n2
  have 3: "js_replace_all (lit '' COMMA '') (\<lambda>m. '', '') ''y'' = ''y''" by blast
  from 2 3 have "js_replace_all (lit '' COMMA '') (\<lambda>m. '', '') ''x COMMA y'' = ''x, y''"
    by (simp del: lit.simps js_replace_all.simps)
  with 1 e show ?thesis by (simp del: lit.simps js_replace_all.simps)
qed

text \<open>
  C10. For an output without \<open>LaTeX:\<close>, \<open>extractLatexExpression\<close> raises a \<open>TypeError\<close>
  and returns nothing, and a request with one such output ends in the generic
  failure.
\<close>

theorem C10_no_marker_fails_batch:
  assumes "\<not> sublist ''LaTeX:'' stdout"
    and "i < length lastWrittenNumbers"
    and "exec i (buildSeshatCommands PATH lastWrittenNumbers ! i) = ExecResolved stdout stderr"
  shows "extractLatexExpression stdout = Inl TypeError
    \<and> handleGet exec extractAllInformation createFileFromInfo PATH lastWrittenNumbers =
        Status500 ''Internal Server Error''"
proof -
  have t: "extractLatexExpression stdout = Inl TypeError"
    by (rule extractLatexExpression_no_marker [OF assms(1)])
  then have "isl (recognise (exec i (buildSeshatCommands PATH lastWrittenNumbers ! i)))"
    by (simp add: assms(3) recognise_def)
  from t handleGet_failed_invocation [where exec = exec and i = i, OF assms(2) this]
  show ?thesis by simp
qed

theorem C10_no_marker_fails_batch_witness:
  "\<not> sublist ''LaTeX:'' ''nothing recognised''
   \<and> extractLatexExpression ''nothing recognised'' = Inl TypeError
   \<and> handleGet (\<lambda>i command. if i = 1 then ExecResolved ''nothing recognised'' [] else ExecResolved ''LaTeX: x'' [])
        (\<lambda>nums. Inr batch_example) Inr ''/opt/seshat'' [10, 9] = Status500 ''Internal Server Error''"
proof -
  have n: "\<not> sublist ''LaTeX:'' ''nothing recognised''" by code_simp
  from C10_no_marker_fails_batch [OF n, of 1 "[10, 9]"
      "\<lambda>i command. if i = 1 then ExecResolved ''nothing recognised'' [] else ExecResolved ''LaTeX: x'' []"
      "''/opt/seshat''" "[]" "\<lambda>nums. Inr batch_example" Inr] n
  show ?thesis by simp
qed

end
